theory Spec2Isabelle
  imports
    Complex_Main
    "HOL-Library.AList"
    "HOL-Library.List_Lexorder"
    "HOL-Library.Char_ord"
    "HOL-Library.Sublist"
begin

section \<open>JavaScript numbers\<close>

text \<open>
  A TypeScript \<open>number\<close> is an IEEE 754 binary64 value: a finite value, one of the two
  infinities, or NaN. A finite value is the real number it denotes; the two zeros are
  one value (the source never divides by a zero and never looks at the sign of one).
\<close>

datatype jsnum = Num real | PInf | NInf | NaN

fun isFinite :: "jsnum \<Rightarrow> bool" where
  "isFinite (Num _) = True"
| "isFinite _ = False"

fun js_neg :: "jsnum \<Rightarrow> jsnum" where
  "js_neg (Num a) = Num (- a)"
| "js_neg PInf = NInf"
| "js_neg NInf = PInf"
| "js_neg NaN = NaN"

text \<open>The sign of a non-NaN value: \<open>True\<close> for what is not negative.\<close>

fun js_nonneg :: "jsnum \<Rightarrow> bool" where
  "js_nonneg (Num a) = (0 \<le> a)"
| "js_nonneg PInf = True"
| "js_nonneg NInf = False"
| "js_nonneg NaN = False"

definition signed_inf :: "bool \<Rightarrow> jsnum" where
  "signed_inf pos = (if pos then PInf else NInf)"

subsection \<open>Rounding to binary64\<close>

text \<open>
  The result of \<open>+\<close>, \<open>-\<close>, \<open>*\<close>, \<open>/\<close> and \<open>Math.sqrt\<close> on finite operands is the
  exact result rounded to the nearest binary64 value, ties to the even significand, and
  an infinity on overflow. A binary64 value is \<open>m \<times> 2 ^ i\<close> with \<open>|m| < 2 ^ 53\<close> and
  \<open>-1074 \<le> i \<le> 971\<close>.

  \<open>round_half_even\<close> rounds a real to the nearest integer, ties to even. The quantum
  of a positive real \<open>a\<close> is \<open>2\<close> to the power \<open>ulp_exponent a\<close>: 52 binary places
  below the leading bit of \<open>a\<close>, and never below \<open>2 ^ -1074\<close> (the subnormal range).
  \<open>nearest a\<close> is the multiple of the quantum nearest to \<open>a\<close>, and \<open>binary64 x\<close> is
  the number that an operation with exact result \<open>x\<close> returns.
\<close>

definition round_half_even :: "real \<Rightarrow> int" where
  "round_half_even y =
     (let f = \<lfloor>y\<rfloor>; r = y - of_int f
      in if r < 1/2 then f else if 1/2 < r then f + 1 else if even f then f else f + 1)"

definition ulp_exponent :: "real \<Rightarrow> int" where
  "ulp_exponent a = max \<lfloor>log 2 a\<rfloor> (- 1022) - 52"

definition nearest :: "real \<Rightarrow> real" where
  "nearest a =
     (let q = 2 powi ulp_exponent a in of_int (round_half_even (a / q)) * q)"

definition binary64 :: "real \<Rightarrow> jsnum" where
  "binary64 x =
     (if x = 0 then Num 0
      else if 2 ^ 1024 \<le> nearest \<bar>x\<bar> then signed_inf (0 < x)
      else Num (sgn x * nearest \<bar>x\<bar>))"

text \<open>The reals that are binary64 values.\<close>

definition representable :: "real \<Rightarrow> bool" where
  "representable x \<longleftrightarrow>
     (\<exists>m i. x = of_int m * 2 powi i \<and> \<bar>m\<bar> < 2 ^ 53 \<and> - 1074 \<le> i \<and> i \<le> 971)"

subsection \<open>Arithmetic and comparisons\<close>

fun js_add :: "jsnum \<Rightarrow> jsnum \<Rightarrow> jsnum" where
  "js_add (Num a) (Num b) = binary64 (a + b)"
| "js_add NaN _ = NaN"
| "js_add _ NaN = NaN"
| "js_add PInf NInf = NaN"
| "js_add NInf PInf = NaN"
| "js_add PInf _ = PInf"
| "js_add _ PInf = PInf"
| "js_add NInf _ = NInf"
| "js_add _ NInf = NInf"

definition js_sub :: "jsnum \<Rightarrow> jsnum \<Rightarrow> jsnum" where
  "js_sub a b = js_add a (js_neg b)"

fun js_mul :: "jsnum \<Rightarrow> jsnum \<Rightarrow> jsnum" where
  "js_mul (Num a) (Num b) = binary64 (a * b)"
| "js_mul NaN _ = NaN"
| "js_mul _ NaN = NaN"
| "js_mul a b =
     (if a = Num 0 \<or> b = Num 0 then NaN else signed_inf (js_nonneg a = js_nonneg b))"

fun js_div :: "jsnum \<Rightarrow> jsnum \<Rightarrow> jsnum" where
  "js_div (Num a) (Num b) =
     (if b \<noteq> 0 then binary64 (a / b) else if a = 0 then NaN else signed_inf (0 < a))"
| "js_div NaN _ = NaN"
| "js_div _ NaN = NaN"
| "js_div (Num a) _ = Num 0"
| "js_div a (Num b) = signed_inf (js_nonneg a = js_nonneg (Num b))"
| "js_div _ _ = NaN"

fun js_gt :: "jsnum \<Rightarrow> jsnum \<Rightarrow> bool" where
  "js_gt (Num a) (Num b) = (b < a)"
| "js_gt NaN _ = False"
| "js_gt _ NaN = False"
| "js_gt PInf b = (b \<noteq> PInf)"
| "js_gt NInf _ = False"
| "js_gt (Num a) b = (b = NInf)"

definition js_lt :: "jsnum \<Rightarrow> jsnum \<Rightarrow> bool" where
  "js_lt a b = js_gt b a"

text \<open>Strict equality \<open>===\<close> on numbers: NaN equals nothing.\<close>

definition js_eq :: "jsnum \<Rightarrow> jsnum \<Rightarrow> bool" where
  "js_eq a b = (a \<noteq> NaN \<and> a = b)"

definition js_ge :: "jsnum \<Rightarrow> jsnum \<Rightarrow> bool" where
  "js_ge a b = (js_gt a b \<or> js_eq a b)"

fun Math_abs :: "jsnum \<Rightarrow> jsnum" where
  "Math_abs (Num a) = Num \<bar>a\<bar>"
| "Math_abs PInf = PInf"
| "Math_abs NInf = PInf"
| "Math_abs NaN = NaN"

fun Math_sqrt :: "jsnum \<Rightarrow> jsnum" where
  "Math_sqrt (Num a) = (if 0 \<le> a then binary64 (sqrt a) else NaN)"
| "Math_sqrt PInf = PInf"
| "Math_sqrt NInf = NaN"
| "Math_sqrt NaN = NaN"

text \<open>\<open>Math.pow(x, 2)\<close>, the only power the source takes: the rounded square.\<close>

definition Math_pow2 :: "jsnum \<Rightarrow> jsnum" where
  "Math_pow2 x = js_mul x x"

definition Math_min :: "jsnum \<Rightarrow> jsnum \<Rightarrow> jsnum" where
  "Math_min a b = (if a = NaN \<or> b = NaN then NaN else if js_lt b a then b else a)"

text \<open>\<open>xs.reduce((sum, x) => sum + x, 0)\<close>.\<close>

definition js_sum :: "jsnum list \<Rightarrow> jsnum" where
  "js_sum xs = foldl js_add (Num 0) xs"

section \<open>JavaScript strings\<close>

text \<open>
  A string is the UTF-8 byte sequence of its text. \<open>String.prototype.trim\<close> strips,
  at both ends, the white space and line terminator code points of ECMAScript: U+0009
  to U+000D, U+0020, U+00A0, U+1680, U+2000 to U+200A, U+2028, U+2029, U+202F, U+205F,
  U+3000 and U+FEFF. \<open>white_space\<close> lists their encodings.
\<close>

definition white_space :: "string list" where
  "white_space =
     [[CHR 0x09], [CHR 0x0A], [CHR 0x0B], [CHR 0x0C], [CHR 0x0D], [CHR 0x20],
      [CHR 0xC2, CHR 0xA0],
      [CHR 0xE1, CHR 0x9A, CHR 0x80],
      [CHR 0xE2, CHR 0x80, CHR 0x80], [CHR 0xE2, CHR 0x80, CHR 0x81],
      [CHR 0xE2, CHR 0x80, CHR 0x82], [CHR 0xE2, CHR 0x80, CHR 0x83],
      [CHR 0xE2, CHR 0x80, CHR 0x84], [CHR 0xE2, CHR 0x80, CHR 0x85],
      [CHR 0xE2, CHR 0x80, CHR 0x86], [CHR 0xE2, CHR 0x80, CHR 0x87],
      [CHR 0xE2, CHR 0x80, CHR 0x88], [CHR 0xE2, CHR 0x80, CHR 0x89],
      [CHR 0xE2, CHR 0x80, CHR 0x8A],
      [CHR 0xE2, CHR 0x80, CHR 0xA8], [CHR 0xE2, CHR 0x80, CHR 0xA9],
      [CHR 0xE2, CHR 0x80, CHR 0xAF],
      [CHR 0xE2, CHR 0x81, CHR 0x9F],
      [CHR 0xE3, CHR 0x80, CHR 0x80],
      [CHR 0xEF, CHR 0xBB, CHR 0xBF]]"

text \<open>
  \<open>strip_prefixes ws n s\<close> removes from the front of \<open>s\<close> up to \<open>n\<close> members of
  \<open>ws\<close>, one after the other; each member of \<open>white_space\<close> has at least one byte,
  so that \<open>length s\<close> rounds remove all leading white space.
\<close>

primrec strip_prefixes :: "string list \<Rightarrow> nat \<Rightarrow> string \<Rightarrow> string" where
  "strip_prefixes ws 0 s = s"
| "strip_prefixes ws (Suc n) s =
     (case find (\<lambda>w. prefix w s) ws of
        Some w \<Rightarrow> strip_prefixes ws n (drop (length w) s)
      | None \<Rightarrow> s)"

definition trimStart :: "string \<Rightarrow> string" where
  "trimStart s = strip_prefixes white_space (length s) s"

definition trimEnd :: "string \<Rightarrow> string" where
  "trimEnd s = rev (strip_prefixes (map rev white_space) (length s) (rev s))"

definition trim :: "string \<Rightarrow> string" where
  "trim s = trimEnd (trimStart s)"

section \<open>Data model (types/index.ts)\<close>

text \<open>
  Field names are those of the source; the numeric fields of a \<open>CSVRow\<close> carry the
  prefix \<open>row_\<close> and those of the aggregator's per-date accumulator the prefix
  \<open>acc_\<close>, to keep them apart from the fields of a \<open>DailyAggregate\<close>.
\<close>

record CSVRow =
  analytics_date :: string
  keyword :: string
  page_url :: string
  row_clicks :: jsnum
  row_impressions :: jsnum
  row_ctr :: jsnum
  row_position :: jsnum
  analytics_type :: string
  device :: string

record DailyAggregate =
  date :: string
  clicks :: jsnum
  impressions :: jsnum
  ctr :: jsnum
  position :: jsnum

record DateAccumulator =
  acc_clicks :: jsnum
  acc_impressions :: jsnum
  ctrWeightedSum :: jsnum
  positionWeightedSum :: jsnum

text \<open>
  An async iterable is the list of the items it yields, followed by normal completion
  (\<open>None\<close>) or by the error it throws (\<open>Some e\<close>).
\<close>

datatype error =
    TooManyParsingErrors nat
  | EmptyCSV
  | FailedToBuildAggregates error
  | NoValidData

type_synonym 'a async_iterable = "'a list \<times> error option"

section \<open>Daily Aggregator (lib/aggregator.ts)\<close>

text \<open>\<open>!date || date.trim() === ''\<close>: the row is skipped.\<close>

definition invalid_date :: "string \<Rightarrow> bool" where
  "invalid_date d = (d = [] \<or> trim d = [])"

definition finite_or_zero :: "jsnum \<Rightarrow> jsnum" where
  "finite_or_zero x = (if isFinite x then x else Num 0)"

definition empty_accumulator :: DateAccumulator where
  "empty_accumulator =
     \<lparr>acc_clicks = Num 0, acc_impressions = Num 0,
      ctrWeightedSum = Num 0, positionWeightedSum = Num 0\<rparr>"

text \<open>
  The body of the \<open>for await\<close> loop. The \<open>Map\<close> is an association list in insertion
  order: \<open>Map.set\<close> on a key that is present keeps its place, a new key goes last.
\<close>

definition accumulate_row ::
  "(string \<times> DateAccumulator) list \<Rightarrow> CSVRow \<Rightarrow> (string \<times> DateAccumulator) list" where
  "accumulate_row dateMap row =
     (let date = analytics_date row in
      if invalid_date date then dateMap
      else
        let existing = (case map_of dateMap date of Some e \<Rightarrow> e | None \<Rightarrow> empty_accumulator);
            clicks = finite_or_zero (row_clicks row);
            impressions = finite_or_zero (row_impressions row);
            ctr = finite_or_zero (row_ctr row);
            position = finite_or_zero (row_position row);
            existing = existing
             \<lparr>acc_clicks := js_add (acc_clicks existing) clicks,
              acc_impressions := js_add (acc_impressions existing) impressions,
              ctrWeightedSum := js_add (ctrWeightedSum existing) (js_mul ctr impressions),
              positionWeightedSum :=
                js_add (positionWeightedSum existing) (js_mul position impressions)\<rparr>
        in AList.update date existing dateMap)"

text \<open>The second loop's body: one accumulator becomes one \<open>DailyAggregate\<close>.\<close>

definition finalize :: "string \<times> DateAccumulator \<Rightarrow> DailyAggregate" where
  "finalize entry =
     (let (date, data) = entry;
          clicks = acc_clicks data;
          impressions = acc_impressions data;
          ctr = (if js_gt impressions (Num 0)
                 then js_div (ctrWeightedSum data) impressions else Num 0);
          position = (if js_gt impressions (Num 0)
                 then js_div (positionWeightedSum data) impressions else Num 0)
      in \<lparr>date = date,
          clicks = finite_or_zero clicks,
          impressions = finite_or_zero impressions,
          ctr = finite_or_zero ctr,
          position = finite_or_zero position\<rparr>)"

text \<open>
  \<open>localeCompare\<close> on date keys is the order of strings (the keys are fixed-width
  ASCII dates); \<open>Array.prototype.sort\<close> is stable, as \<open>sort_key\<close> is.
\<close>

definition buildDailyAggregates :: "CSVRow async_iterable \<Rightarrow> error + DailyAggregate list" where
  "buildDailyAggregates rows =
     (let dateMap = foldl accumulate_row [] (fst rows) in
      case snd rows of
        Some e \<Rightarrow> Inl (FailedToBuildAggregates e)
      | None \<Rightarrow>
          if length dateMap = 0 then Inl NoValidData
          else Inr (sort_key date (map finalize dateMap)))"


subsection \<open>What the aggregator is specified to compute\<close>

text \<open>The real value of \<open>isFinite(x) ? x : 0\<close>.\<close>

fun fin :: "jsnum \<Rightarrow> real" where
  "fin (Num a) = a"
| "fin _ = 0"

definition valid_rows :: "CSVRow list \<Rightarrow> CSVRow list" where
  "valid_rows rows = filter (\<lambda>r. \<not> invalid_date (analytics_date r)) rows"

text \<open>The raw rows of one date key.\<close>

definition rows_on :: "string \<Rightarrow> CSVRow list \<Rightarrow> CSVRow list" where
  "rows_on d rows = filter (\<lambda>r. analytics_date r = d) (valid_rows rows)"

text \<open>
  The sums of the specification as real numbers, and the weighted mean in the
  specification's words: the quotient of the two sums, and 0 when the sum of
  impressions is zero.
\<close>

definition impressions_sum :: "string \<Rightarrow> CSVRow list \<Rightarrow> real" where
  "impressions_sum d rows = sum_list (map (\<lambda>r. fin (row_impressions r)) (rows_on d rows))"

definition ctr_weighted :: "string \<Rightarrow> CSVRow list \<Rightarrow> real" where
  "ctr_weighted d rows =
     sum_list (map (\<lambda>r. fin (row_ctr r) * fin (row_impressions r)) (rows_on d rows))"

definition spec_weighted_ctr :: "string \<Rightarrow> CSVRow list \<Rightarrow> real" where
  "spec_weighted_ctr d rows =
     (if impressions_sum d rows = 0 then 0 else ctr_weighted d rows / impressions_sum d rows)"

text \<open>
  The same sums as a program computes them independently over a list of rows: in
  binary64 arithmetic, row after row, a non-finite field counting as 0.
\<close>

definition totals_of :: "CSVRow list \<Rightarrow> DateAccumulator" where
  "totals_of rs =
     \<lparr>acc_clicks = js_sum (map (\<lambda>r. finite_or_zero (row_clicks r)) rs),
      acc_impressions = js_sum (map (\<lambda>r. finite_or_zero (row_impressions r)) rs),
      ctrWeightedSum =
        js_sum (map (\<lambda>r. js_mul (finite_or_zero (row_ctr r))
                            (finite_or_zero (row_impressions r))) rs),
      positionWeightedSum =
        js_sum (map (\<lambda>r. js_mul (finite_or_zero (row_position r))
                            (finite_or_zero (row_impressions r))) rs)\<rparr>"

definition impressions_total :: "string \<Rightarrow> CSVRow list \<Rightarrow> jsnum" where
  "impressions_total d rows = acc_impressions (totals_of (rows_on d rows))"

definition ctr_weighted_total :: "string \<Rightarrow> CSVRow list \<Rightarrow> jsnum" where
  "ctr_weighted_total d rows = ctrWeightedSum (totals_of (rows_on d rows))"

definition position_weighted_total :: "string \<Rightarrow> CSVRow list \<Rightarrow> jsnum" where
  "position_weighted_total d rows = positionWeightedSum (totals_of (rows_on d rows))"

text \<open>The loop invariant: the map holds, for each date seen, the totals of its rows.\<close>

definition tracks :: "(string \<times> DateAccumulator) list \<Rightarrow> CSVRow list \<Rightarrow> bool" where
  "tracks m rs \<longleftrightarrow>
     distinct (map fst m) \<and>
     (\<forall>d. map_of m d = (if rows_on d rs = [] then None else Some (totals_of (rows_on d rs))))"

text \<open>
  The input records whose clicks are counted: those with a valid date key and finite
  clicks; and the sum of their clicks, as a real number.
\<close>

definition counted_rows :: "CSVRow list \<Rightarrow> CSVRow list" where
  "counted_rows rows =
     filter (\<lambda>r. \<not> invalid_date (analytics_date r) \<and> isFinite (row_clicks r)) rows"

definition clicks_total :: "CSVRow list \<Rightarrow> real" where
  "clicks_total rows = sum_list (map (\<lambda>r. fin (row_clicks r)) (counted_rows rows))"

text \<open>The clicks of a row as a natural number, where they are one.\<close>

definition whole_clicks :: "CSVRow \<Rightarrow> nat" where
  "whole_clicks r = nat \<lfloor>fin (row_clicks r)\<rfloor>"

subsection \<open>Sample inputs\<close>

definition mk_row :: "string \<Rightarrow> jsnum \<Rightarrow> jsnum \<Rightarrow> jsnum \<Rightarrow> jsnum \<Rightarrow> CSVRow" where
  "mk_row d c i t p =
     \<lparr>analytics_date = d, keyword = ''kw'', page_url = ''https://example.com/'',
      row_clicks = c, row_impressions = i, row_ctr = t, row_position = p,
      analytics_type = ''web'', device = ''desktop''\<rparr>"

text \<open>
  Five rows: two dates with one row, one date with two rows (one of them with clicks
  \<open>Infinity\<close> and position NaN), and a row whose date key is a space and a no-break
  space. All the numbers are binary64 values.
\<close>

definition sample_rows :: "CSVRow list" where
  "sample_rows =
     [mk_row ''2024-01-02'' (Num 5) (Num 64) (Num (1/16)) (Num 3),
      mk_row ''2024-01-01'' (Num 10) (Num 1024) (Num (1/8)) (Num 2),
      mk_row [CHR 0x20, CHR 0xC2, CHR 0xA0] (Num 7) (Num 70) (Num (1/8)) (Num 1),
      mk_row ''2024-01-01'' PInf (Num 1024) (Num (3/8)) NaN,
      mk_row ''2024-01-03'' (Num 4) (Num 0) (Num 0) (Num 0)]"

definition sample_aggregates :: "DailyAggregate list" where
  "sample_aggregates =
     [\<lparr>date = ''2024-01-01'', clicks = Num 10, impressions = Num 2048,
       ctr = Num (1/4), position = Num 1\<rparr>,
      \<lparr>date = ''2024-01-02'', clicks = Num 5, impressions = Num 64,
       ctr = Num (1/16), position = Num 3\<rparr>,
      \<lparr>date = ''2024-01-03'', clicks = Num 4, impressions = Num 0,
       ctr = Num 0, position = Num 0\<rparr>]"

text \<open>
  \<open>2 ^ 1023\<close> is a binary64 value, and its double exceeds the largest one. One row
  with that many impressions and a click-through rate of 2; and two rows of one date
  with that many clicks each.
\<close>

definition huge :: real where
  "huge = 2 ^ 1023"

definition overflow_rows :: "CSVRow list" where
  "overflow_rows = [mk_row ''2024-01-01'' (Num 3) (Num huge) (Num 2) (Num 1)]"

definition huge_clicks_rows :: "CSVRow list" where
  "huge_clicks_rows =
     [mk_row ''2024-01-01'' (Num huge) (Num 64) (Num (1/8)) (Num 2),
      mk_row ''2024-01-01'' (Num huge) (Num 64) (Num (1/8)) (Num 2)]"

text \<open>One row whose impressions count is negative.\<close>

definition negative_rows :: "CSVRow list" where
  "negative_rows = [mk_row ''2024-01-01'' (Num 3) (Num (- 10)) (Num (1/2)) (Num 4)]"

section \<open>Row Ingestor (lib/csv-parser.ts)\<close>

text \<open>
  A record of the CSV parser (\<open>columns: true\<close>) maps column names to strings; with a
  relaxed column count a column may be missing. The parser's stream is the list of the
  records it delivers. (A failure of the read stream is rethrown by the listener
  \<open>stream.on('error', ...)\<close>, outside the generator: it is no value of
  \<open>streamParseCSV\<close>, and no error that the generator itself throws carries a
  \<open>code\<close>, so that its outer \<open>catch\<close> rethrows what it catches.) \<open>parseFloat\<close> is a
  parameter of the model.
\<close>

type_synonym raw_record = "string \<rightharpoonup> string"

definition maxErrors :: nat where
  "maxErrors = 100"

text \<open>\<open>!value || value.trim() === ''\<close> on a field that may be undefined.\<close>

definition missing_or_blank :: "string option \<Rightarrow> bool" where
  "missing_or_blank value =
     (case value of None \<Rightarrow> True | Some s \<Rightarrow> s = [] \<or> trim s = [])"

text \<open>\<open>value || ''\<close>.\<close>

definition or_empty :: "string option \<Rightarrow> string" where
  "or_empty value = (case value of None \<Rightarrow> [] | Some s \<Rightarrow> s)"

definition parseNumericField :: "(string \<Rightarrow> jsnum) \<Rightarrow> string option \<Rightarrow> jsnum" where
  "parseNumericField parseFloat value =
     (if missing_or_blank value then Num 0
      else let parsed = parseFloat (the value) in
           if parsed = NaN then Num 0 else parsed)"

text \<open>
  The \<open>for await\<close> loop over the parser's records, with the counters \<open>rowCount\<close> and
  \<open>errorCount\<close>. It returns the rows yielded and either the error thrown or the two
  counters at the end of the stream. The \<open>throw\<close> in the \<open>try\<close> block ("Too many invalid
  rows") is caught by \<open>catch (rowError)\<close>, which counts once more and throws in its
  turn ("Too many parsing errors").
\<close>

fun parse_records ::
  "(string \<Rightarrow> jsnum) \<Rightarrow> raw_record list \<Rightarrow> nat \<Rightarrow> nat \<Rightarrow> CSVRow list \<times> (error + nat \<times> nat)" where
  "parse_records parseFloat [] rowCount errorCount = ([], Inr (rowCount, errorCount))"
| "parse_records parseFloat (record # rest) rowCount errorCount =
     (let rowCount = rowCount + 1 in
      if record ''analytics_date'' = Some ''analytics_date''
      then parse_records parseFloat rest rowCount errorCount
      else if missing_or_blank (record ''analytics_date'')
      then
        (let errorCount = errorCount + 1 in
         if errorCount > maxErrors
         then
           (let errorCount = errorCount + 1 in
            if errorCount > maxErrors then ([], Inl (TooManyParsingErrors errorCount))
            else parse_records parseFloat rest rowCount errorCount)
         else parse_records parseFloat rest rowCount errorCount)
      else
        (let clicks = parseNumericField parseFloat (record ''clicks'');
             impressions = parseNumericField parseFloat (record ''impressions'');
             ctr = parseNumericField parseFloat (record ''ctr'');
             position = parseNumericField parseFloat (record ''position'');
             row = \<lparr>analytics_date = or_empty (record ''analytics_date''),
                    keyword = or_empty (record ''keyword''),
                    page_url = or_empty (record ''page_url''),
                    row_clicks = clicks,
                    row_impressions = impressions,
                    row_ctr = ctr,
                    row_position = position,
                    analytics_type = or_empty (record ''analytics_type''),
                    device = or_empty (record ''device'')\<rparr>;
             (yielded, outcome) = parse_records parseFloat rest rowCount errorCount
         in (row # yielded, outcome)))"

definition streamParseCSV :: "(string \<Rightarrow> jsnum) \<Rightarrow> raw_record list \<Rightarrow> CSVRow async_iterable" where
  "streamParseCSV parseFloat parser =
     (case parse_records parseFloat parser 0 0 of
        (yielded, Inl e) \<Rightarrow> (yielded, Some e)
      | (yielded, Inr (rowCount, errorCount)) \<Rightarrow>
          if rowCount = 0 then (yielded, Some EmptyCSV) else (yielded, None))"

text \<open>A header line that a concatenated export repeats in the middle of the data.\<close>

definition repeated_header :: raw_record where
  "repeated_header =
     [''analytics_date'' \<mapsto> ''analytics_date'', ''keyword'' \<mapsto> ''keyword'',
      ''page_url'' \<mapsto> ''page_url'', ''clicks'' \<mapsto> ''clicks'',
      ''impressions'' \<mapsto> ''impressions'', ''ctr'' \<mapsto> ''ctr'',
      ''position'' \<mapsto> ''position'', ''analytics_type'' \<mapsto> ''analytics_type'',
      ''device'' \<mapsto> ''device'']"

text \<open>A data line whose date column is empty.\<close>

definition dateless_record :: raw_record where
  "dateless_record =
     [''analytics_date'' \<mapsto> [], ''keyword'' \<mapsto> ''shoes'', ''clicks'' \<mapsto> ''3'']"


section \<open>Call Governor (lib/security.ts, class RateLimiter)\<close>

text \<open>
  \<open>Date.now()\<close> is an argument of \<open>checkLimit\<close>: an integer count of milliseconds.
  The periodic \<open>cleanup\<close>, which forgets the buckets not touched for ten minutes, is
  left out.
\<close>

record Bucket =
  tokens :: jsnum
  lastRefill :: int

record RateLimiter =
  buckets :: "string \<rightharpoonup> Bucket"
  maxTokens :: jsnum
  refillRate :: jsnum

definition new_RateLimiter :: "jsnum \<Rightarrow> jsnum \<Rightarrow> RateLimiter" where
  "new_RateLimiter maxTokens' refillPerMinute =
     \<lparr>buckets = Map.empty, maxTokens = maxTokens',
      refillRate = js_div refillPerMinute (Num 60000)\<rparr>"

definition checkLimit :: "RateLimiter \<Rightarrow> string \<Rightarrow> int \<Rightarrow> bool \<times> RateLimiter" where
  "checkLimit this identifier now =
     (let bucket = (case buckets this identifier of
                      Some b \<Rightarrow> b
                    | None \<Rightarrow> \<lparr>tokens = maxTokens this, lastRefill = now\<rparr>);
          timeSinceRefill = js_sub (Num (of_int now)) (Num (of_int (lastRefill bucket)));
          tokensToAdd = js_mul timeSinceRefill (refillRate this);
          bucket = bucket\<lparr>tokens := Math_min (maxTokens this) (js_add (tokens bucket) tokensToAdd),
                          lastRefill := now\<rparr>
      in if js_ge (tokens bucket) (Num 1)
         then (True, this\<lparr>buckets := (buckets this)
                 (identifier \<mapsto> bucket\<lparr>tokens := js_sub (tokens bucket) (Num 1)\<rparr>)\<rparr>)
         else (False, this\<lparr>buckets := (buckets this)(identifier \<mapsto> bucket)\<rparr>))"

definition insightsRateLimiter :: RateLimiter where
  "insightsRateLimiter = new_RateLimiter (Num 10) (Num 10)"

text \<open>The answers of \<open>n\<close> successive checks of one caller at one instant.\<close>

fun checks_at :: "nat \<Rightarrow> RateLimiter \<Rightarrow> string \<Rightarrow> int \<Rightarrow> bool list" where
  "checks_at 0 this identifier now = []"
| "checks_at (Suc n) this identifier now =
     (let (allowed, this') = checkLimit this identifier now
      in allowed # checks_at n this' identifier now)"

text \<open>
  The content of a bucket after lazy refill, in the specification's words: what it
  held, plus the elapsed time times the rate, capped at the capacity; each operation
  is a binary64 operation.
\<close>

definition refilled :: "RateLimiter \<Rightarrow> Bucket \<Rightarrow> int \<Rightarrow> jsnum" where
  "refilled this bucket now =
     Math_min (maxTokens this)
       (js_add (tokens bucket)
          (js_mul (js_sub (Num (of_int now)) (Num (of_int (lastRefill bucket))))
             (refillRate this)))"

text \<open>
  The limiter of the insights endpoint after one caller has used up its bucket at
  time 0.
\<close>

definition drained_limiter :: RateLimiter where
  "drained_limiter =
     insightsRateLimiter
       \<lparr>buckets := [''203.0.113.7'' \<mapsto> \<lparr>tokens = Num 0, lastRefill = 0\<rparr>]\<rparr>"

section \<open>Range Summarizer (lib/insights-builder.ts)\<close>

text \<open>
  The small objects of the payload: a day with its clicks, a day with a day-over-day
  change, and an anomaly. Their \<open>date\<close> and \<open>clicks\<close> fields carry a prefix. The
  local variable \<open>sorted\<close> of the source is \<open>sorted'\<close> here, and \<open>clicks\<close> is
  \<open>clicks'\<close>.
\<close>

record DayClicks =
  day_date :: string
  day_clicks :: jsnum

record DayChange =
  change_date :: string
  change :: jsnum

record Anomaly =
  anomaly_date :: string
  anomaly_clicks :: jsnum
  zScore :: jsnum

record Totals =
  total_clicks :: jsnum
  total_impressions :: jsnum
  avgCtr :: jsnum
  avgPosition :: jsnum

record Trends =
  clicksChange :: jsnum
  impressionsChange :: jsnum
  peakDay :: DayClicks
  troughDay :: DayClicks
  biggestSpike :: DayChange
  biggestDrop :: DayChange

definition calculateTotals :: "DailyAggregate list \<Rightarrow> Totals" where
  "calculateTotals series =
     (if length series = 0
      then \<lparr>total_clicks = Num 0, total_impressions = Num 0, avgCtr = Num 0, avgPosition = Num 0\<rparr>
      else
        let totalClicks = foldl (\<lambda>sum agg. js_add sum (clicks agg)) (Num 0) series;
            totalImpressions = foldl (\<lambda>sum agg. js_add sum (impressions agg)) (Num 0) series;
            weightedCtrSum =
              foldl (\<lambda>sum agg. js_add sum (js_mul (ctr agg) (impressions agg))) (Num 0) series;
            weightedPositionSum =
              foldl (\<lambda>sum agg. js_add sum (js_mul (position agg) (impressions agg))) (Num 0)
                series;
            avgCtr = (if js_gt totalImpressions (Num 0)
                      then js_div weightedCtrSum totalImpressions else Num 0);
            avgPosition = (if js_gt totalImpressions (Num 0)
                      then js_div weightedPositionSum totalImpressions else Num 0)
        in \<lparr>total_clicks = totalClicks, total_impressions = totalImpressions,
            avgCtr = avgCtr, avgPosition = avgPosition\<rparr>)"

text \<open>The body of the loop that looks for the peak and the trough day.\<close>

definition peak_trough_step ::
  "DailyAggregate \<times> DailyAggregate \<Rightarrow> DailyAggregate \<Rightarrow> DailyAggregate \<times> DailyAggregate" where
  "peak_trough_step days agg =
     (let (peakDay, troughDay) = days
      in (if js_gt (clicks agg) (clicks peakDay) then agg else peakDay,
          if js_lt (clicks agg) (clicks troughDay) then agg else troughDay))"

text \<open>The body of the loop over \<open>i = 1, ..., sorted.length - 1\<close>.\<close>

definition spike_drop_step ::
  "DailyAggregate list \<Rightarrow> DayChange \<times> DayChange \<Rightarrow> nat \<Rightarrow> DayChange \<times> DayChange" where
  "spike_drop_step sorted' biggest i =
     (let (biggestSpike, biggestDrop) = biggest;
          prev = sorted' ! (i - 1);
          curr = sorted' ! i;
          change = js_sub (clicks curr) (clicks prev)
      in (if js_gt change (DayChange.change biggestSpike)
          then \<lparr>change_date = date curr, change = change\<rparr> else biggestSpike,
          if js_lt change (DayChange.change biggestDrop)
          then \<lparr>change_date = date curr, change = change\<rparr> else biggestDrop))"

definition calculateTrends :: "DailyAggregate list \<Rightarrow> Trends" where
  "calculateTrends series =
     (if length series = 0
      then \<lparr>clicksChange = Num 0, impressionsChange = Num 0,
            peakDay = \<lparr>day_date = [], day_clicks = Num 0\<rparr>,
            troughDay = \<lparr>day_date = [], day_clicks = Num 0\<rparr>,
            biggestSpike = \<lparr>change_date = [], change = Num 0\<rparr>,
            biggestDrop = \<lparr>change_date = [], change = Num 0\<rparr>\<rparr>
      else
        let sorted' = sort_key date series in
        if length sorted' = 1
        then
          (let singleDay = sorted' ! 0
           in \<lparr>clicksChange = Num 0, impressionsChange = Num 0,
               peakDay = \<lparr>day_date = date singleDay, day_clicks = clicks singleDay\<rparr>,
               troughDay = \<lparr>day_date = date singleDay, day_clicks = clicks singleDay\<rparr>,
               biggestSpike = \<lparr>change_date = [], change = Num 0\<rparr>,
               biggestDrop = \<lparr>change_date = [], change = Num 0\<rparr>\<rparr>)
        else
          (let firstDay = sorted' ! 0;
               lastDay = sorted' ! (length sorted' - 1);
               clicksChange =
                 (if js_gt (clicks firstDay) (Num 0)
                  then js_mul (js_div (js_sub (clicks lastDay) (clicks firstDay))
                                 (clicks firstDay)) (Num 100)
                  else Num 0);
               impressionsChange =
                 (if js_gt (impressions firstDay) (Num 0)
                  then js_mul (js_div (js_sub (impressions lastDay) (impressions firstDay))
                                 (impressions firstDay)) (Num 100)
                  else Num 0);
               (peakDay, troughDay) = foldl peak_trough_step (sorted' ! 0, sorted' ! 0) sorted';
               (biggestSpike, biggestDrop) =
                 foldl (spike_drop_step sorted')
                   (\<lparr>change_date = [], change = Num 0\<rparr>, \<lparr>change_date = [], change = Num 0\<rparr>)
                   [1..<length sorted']
           in \<lparr>clicksChange = clicksChange, impressionsChange = impressionsChange,
               peakDay = \<lparr>day_date = date peakDay, day_clicks = clicks peakDay\<rparr>,
               troughDay = \<lparr>day_date = date troughDay, day_clicks = clicks troughDay\<rparr>,
               biggestSpike = biggestSpike, biggestDrop = biggestDrop\<rparr>))"

text \<open>The body of the loop that collects the anomalies.\<close>

definition anomaly_step :: "jsnum \<Rightarrow> jsnum \<Rightarrow> Anomaly list \<Rightarrow> DailyAggregate \<Rightarrow> Anomaly list" where
  "anomaly_step mean stdDev anomalies agg =
     (let zScore = js_div (js_sub (clicks agg) mean) stdDev
      in if js_gt (Math_abs zScore) (Num 2)
         then anomalies @ [\<lparr>anomaly_date = date agg, anomaly_clicks = clicks agg, zScore = zScore\<rparr>]
         else anomalies)"

definition detectAnomalies :: "DailyAggregate list \<Rightarrow> Anomaly list" where
  "detectAnomalies series =
     (if length series < 3 then []
      else
        let clicks' = map clicks series;
            mean = js_div (js_sum clicks') (Num (real (length clicks')));
            squaredDiffs = map (\<lambda>val. Math_pow2 (js_sub val mean)) clicks';
            variance = js_div (js_sum squaredDiffs) (Num (real (length clicks')));
            stdDev = Math_sqrt variance
        in if js_eq stdDev (Num 0) then []
           else foldl (anomaly_step mean stdDev) [] series)"

text \<open>
  \<open>downsampleSeries\<close>. \<open>maxPoints\<close> is a natural number (the one caller passes 60).
  The body of the loop that looks for the indices of the peak and of the trough:
\<close>

definition peak_trough_idx_step :: "DailyAggregate list \<Rightarrow> nat \<times> nat \<Rightarrow> nat \<Rightarrow> nat \<times> nat" where
  "peak_trough_idx_step sorted' idx i =
     (let (peakIdx, troughIdx) = idx
      in (if js_gt (clicks (sorted' ! i)) (clicks (sorted' ! peakIdx)) then i else peakIdx,
          if js_lt (clicks (sorted' ! i)) (clicks (sorted' ! troughIdx)) then i else troughIdx))"

text \<open>\<open>Math.ceil(n / maxPoints)\<close> for a positive \<open>maxPoints\<close>.\<close>

definition Math_ceil_div :: "nat \<Rightarrow> nat \<Rightarrow> nat" where
  "Math_ceil_div n maxPoints = nat \<lceil>real n / real maxPoints\<rceil>"

text \<open>
  A \<open>Set<number>\<close> is the list of its elements in insertion order; \<open>add\<close> of an element
  that is present changes nothing.
\<close>

definition Set_add :: "nat \<Rightarrow> nat list \<Rightarrow> nat list" where
  "Set_add i sampled = (if i \<in> set sampled then sampled else sampled @ [i])"

text \<open>
  \<open>for (let i = 0; i < sorted.length; i += step) sampled.add(i)\<close>, entered at \<open>i\<close>.
  The step is at least 2 wherever the loop runs with a positive \<open>maxPoints\<close>; the
  guard \<open>0 < step\<close> only makes the function total. With \<open>maxPoints = 0\<close> the step
  is \<open>Infinity\<close>: the loop adds index 0 and stops.
\<close>

function sample_loop :: "nat \<Rightarrow> nat \<Rightarrow> nat \<Rightarrow> nat list \<Rightarrow> nat list" where
  "sample_loop step n i sampled =
     (if 0 < step \<and> i < n then sample_loop step n (i + step) (Set_add i sampled) else sampled)"
  by pat_completeness auto
termination
  by (relation "measure (\<lambda>(step, n, i, sampled). n - i)") auto

declare sample_loop.simps [simp del]

definition downsampleSeries :: "DailyAggregate list \<Rightarrow> nat \<Rightarrow> DailyAggregate list" where
  "downsampleSeries series maxPoints =
     (if length series \<le> maxPoints then series
      else
        let sorted' = sort_key date series;
            (peakIdx, troughIdx) =
              foldl (peak_trough_idx_step sorted') (0, 0) [0..<length sorted'];
            sampled =
              (if maxPoints = 0
               then Set_add 0 []
               else sample_loop (Math_ceil_div (length sorted') maxPoints) (length sorted') 0 []);
            sampled = Set_add 0 sampled;
            sampled = Set_add (length sorted' - 1) sampled;
            sampled = Set_add peakIdx sampled;
            sampled = Set_add troughIdx sampled;
            indices = sort sampled;
            finalIndices =
              (if length indices > maxPoints then take maxPoints indices else indices)
        in map (\<lambda>i. sorted' ! i) finalIndices)"

text \<open>The payload; its fields \<open>anomalies\<close> and \<open>series\<close> carry the prefix \<open>payload_\<close>.\<close>

record InsightsPayload =
  dateRange :: "string \<times> string"
  totals :: Totals
  trends :: Trends
  payload_anomalies :: "Anomaly list"
  payload_series :: "DailyAggregate list"

definition buildInsightsPayload :: "DailyAggregate list \<Rightarrow> string \<Rightarrow> string \<Rightarrow> InsightsPayload" where
  "buildInsightsPayload series startDate endDate =
     \<lparr>dateRange = (startDate, endDate),
      totals = calculateTotals series,
      trends = calculateTrends series,
      payload_anomalies = detectAnomalies series,
      payload_series = downsampleSeries series 60\<rparr>"

text \<open>
  The parts of \<open>downsampleSeries\<close>, named: the indices of the peak and the trough,
  the stride samples, the index set with the four critical days, and the indices kept.
\<close>

definition peak_trough_idx :: "DailyAggregate list \<Rightarrow> nat \<times> nat" where
  "peak_trough_idx s = foldl (peak_trough_idx_step s) (0, 0) [0..<length s]"

definition stride_sampled :: "nat \<Rightarrow> nat \<Rightarrow> nat list" where
  "stride_sampled n maxPoints =
     (if maxPoints = 0 then Set_add 0 []
      else sample_loop (Math_ceil_div n maxPoints) n 0 [])"

definition all_sampled :: "DailyAggregate list \<Rightarrow> nat \<Rightarrow> nat list" where
  "all_sampled s maxPoints =
     Set_add (snd (peak_trough_idx s)) (Set_add (fst (peak_trough_idx s))
       (Set_add (length s - 1) (Set_add 0 (stride_sampled (length s) maxPoints))))"

definition final_indices :: "DailyAggregate list \<Rightarrow> nat \<Rightarrow> nat list" where
  "final_indices s maxPoints =
     (let indices = sort (all_sampled s maxPoints)
      in if length indices > maxPoints then take maxPoints indices else indices)"



subsection \<open>Anomaly detection in the specification's words\<close>

text \<open>
  The mean, the population standard deviation and the z-score of the clicks of a series
  of finite values, as real numbers.
\<close>

definition clicks_mean :: "DailyAggregate list \<Rightarrow> real" where
  "clicks_mean series = sum_list (map (\<lambda>a. fin (clicks a)) series) / real (length series)"

definition clicks_stddev :: "DailyAggregate list \<Rightarrow> real" where
  "clicks_stddev series =
     sqrt (sum_list (map (\<lambda>a. (fin (clicks a) - clicks_mean series)\<^sup>2) series) /
           real (length series))"

definition z_score :: "DailyAggregate list \<Rightarrow> DailyAggregate \<Rightarrow> real" where
  "z_score series a = (fin (clicks a) - clicks_mean series) / clicks_stddev series"

text \<open>
  The same quantities as a program computes them, each operation a binary64
  operation and each sum taken in the order of the series; and the anomalies the
  specification asks for: the points whose computed z-score exceeds 2 in absolute
  value, in order, each with its z-score.
\<close>

definition computed_mean :: "DailyAggregate list \<Rightarrow> jsnum" where
  "computed_mean series =
     js_div (js_sum (map clicks series)) (Num (real (length series)))"

definition computed_stddev :: "DailyAggregate list \<Rightarrow> jsnum" where
  "computed_stddev series =
     Math_sqrt
       (js_div (js_sum (map (\<lambda>a. Math_pow2 (js_sub (clicks a) (computed_mean series))) series))
          (Num (real (length series))))"

definition computed_z_score :: "DailyAggregate list \<Rightarrow> DailyAggregate \<Rightarrow> jsnum" where
  "computed_z_score series a =
     js_div (js_sub (clicks a) (computed_mean series)) (computed_stddev series)"

definition flagged :: "DailyAggregate list \<Rightarrow> Anomaly list" where
  "flagged series =
     map (\<lambda>a. \<lparr>anomaly_date = date a, anomaly_clicks = clicks a,
               zScore = computed_z_score series a\<rparr>)
       (filter (\<lambda>a. js_gt (Math_abs (computed_z_score series a)) (Num 2)) series)"


subsection \<open>Sample series\<close>

text \<open>Date keys \<open>YYYY-MM-DD\<close>, and the days of a month.\<close>

definition two_digits :: "nat \<Rightarrow> string" where
  "two_digits k = [''0123456789'' ! (k div 10), ''0123456789'' ! (k mod 10)]"

definition date_key :: "nat \<Rightarrow> nat \<Rightarrow> nat \<Rightarrow> string" where
  "date_key y mo d =
     two_digits (y div 100) @ two_digits (y mod 100) @ ''-'' @ two_digits mo @ ''-'' @
     two_digits d"

definition month_days :: "nat \<Rightarrow> nat \<Rightarrow> nat \<Rightarrow> string list" where
  "month_days y mo len = map (date_key y mo) [1..<Suc len]"

text \<open>A day with a whole number of clicks on 1000 impressions.\<close>

definition day :: "string \<Rightarrow> real \<Rightarrow> DailyAggregate" where
  "day d c =
     \<lparr>date = d, clicks = Num c, impressions = Num 1000, ctr = js_div (Num c) (Num 1000),
      position = Num 5\<rparr>"

text \<open>The five days of the specification's example.\<close>

definition five_days :: "DailyAggregate list" where
  "five_days =
     [day ''2024-03-01'' 100, day ''2024-03-02'' 120, day ''2024-03-03'' 90,
      day ''2024-03-04'' 400, day ''2024-03-05'' 110]"

text \<open>Four days of 100 clicks and a fifth of 209.\<close>

definition level_days :: "DailyAggregate list" where
  "level_days =
     [day ''2024-03-01'' 100, day ''2024-03-02'' 100, day ''2024-03-03'' 100,
      day ''2024-03-04'' 100, day ''2024-03-05'' 209]"

text \<open>Three days of 100 clicks.\<close>

definition flat_days :: "DailyAggregate list" where
  "flat_days = [day ''2024-03-01'' 100, day ''2024-03-02'' 100, day ''2024-03-03'' 100]"

text \<open>The 120 days from 2024-01-01 to 2024-04-29, with clicks that grow by one a day.\<close>

definition dates_120 :: "string list" where
  "dates_120 =
     month_days 2024 1 31 @ month_days 2024 2 29 @ month_days 2024 3 31 @
     month_days 2024 4 29"

definition four_months :: "DailyAggregate list" where
  "four_months = map (\<lambda>(i, d). day d (100 + real i)) (enumerate 0 dates_120)"

text \<open>The 365 days of 2023.\<close>

definition dates_365 :: "string list" where
  "dates_365 =
     concat (map (\<lambda>(mo, len). month_days 2023 mo len)
       [(1, 31), (2, 28), (3, 31), (4, 30), (5, 31), (6, 30),
        (7, 31), (8, 31), (9, 30), (10, 31), (11, 30), (12, 31)])"

definition one_year :: "DailyAggregate list" where
  "one_year = map (\<lambda>(i, d). day d (100 + real (i mod 7))) (enumerate 0 dates_365)"

section \<open>Rounding to binary64\<close>

text \<open>
  What the proofs below use of the rounding: it is monotone, it leaves a binary64 value
  as it is, it returns binary64 values only, and it overflows from \<open>2 ^ 1024\<close> on.
  \<open>binary64_round\<close> and \<open>binary64_sqrt_round\<close> compute it on a given number.
\<close>

lemma round_half_even_of_int [simp]: "round_half_even (of_int k) = k"
  by (simp add: round_half_even_def)

lemma round_half_even_le: "y \<le> of_int K \<Longrightarrow> round_half_even y \<le> K"
proof -
  assume a: "y \<le> of_int K"
  have f: "\<lfloor>y\<rfloor> \<le> K"
    using a by (simp add: floor_le_iff)
  show ?thesis
  proof (cases "y = of_int \<lfloor>y\<rfloor>")
    case True
    then have "round_half_even y = \<lfloor>y\<rfloor>"
      by (simp add: round_half_even_def)
    with f show ?thesis by simp
  next
    case False
    then have "of_int \<lfloor>y\<rfloor> < y"
      using of_int_floor_le [of y] by linarith
    with a have "of_int \<lfloor>y\<rfloor> < (of_int K :: real)"
      by linarith
    then have "\<lfloor>y\<rfloor> < K"
      by simp
    moreover have "round_half_even y \<le> \<lfloor>y\<rfloor> + 1"
      by (simp add: round_half_even_def Let_def)
    ultimately show ?thesis by linarith
  qed
qed

lemma round_half_even_ge: "of_int K \<le> y \<Longrightarrow> K \<le> round_half_even y"
proof -
  assume a: "of_int K \<le> y"
  then have "K \<le> \<lfloor>y\<rfloor>"
    by (simp add: le_floor_iff)
  moreover have "\<lfloor>y\<rfloor> \<le> round_half_even y"
    by (simp add: round_half_even_def Let_def)
  ultimately show ?thesis by linarith
qed

lemma round_half_even_mono: "x \<le> y \<Longrightarrow> round_half_even x \<le> round_half_even y"
proof -
  assume a: "x \<le> y"
  have fl: "\<lfloor>x\<rfloor> \<le> \<lfloor>y\<rfloor>"
    using a by (rule floor_mono)
  show ?thesis
  proof (cases "\<lfloor>x\<rfloor> = \<lfloor>y\<rfloor>")
    case True
    with a show ?thesis
      by (auto simp: round_half_even_def Let_def)
  next
    case False
    with fl have "\<lfloor>x\<rfloor> + 1 \<le> \<lfloor>y\<rfloor>" by linarith
    moreover have "round_half_even x \<le> \<lfloor>x\<rfloor> + 1"
      by (simp add: round_half_even_def Let_def)
    moreover have "\<lfloor>y\<rfloor> \<le> round_half_even y"
      by (simp add: round_half_even_def Let_def)
    ultimately show ?thesis by linarith
  qed
qed

lemma round_half_even_unique:
  assumes "of_int m - 1/2 < y" and "y < of_int m + 1/2"
  shows "round_half_even y = m"
proof (cases "of_int m \<le> y")
  case True
  with assms have "\<lfloor>y\<rfloor> = m"
    by (intro floor_unique) linarith+
  with assms show ?thesis
    by (simp add: round_half_even_def Let_def)
next
  case False
  have "of_int (m - 1) \<le> y"
    using assms(1) by simp
  moreover have "y < of_int (m - 1) + 1"
    using False by simp
  ultimately have "\<lfloor>y\<rfloor> = m - 1"
    by (rule floor_unique)
  with assms False show ?thesis
    by (simp add: round_half_even_def Let_def)
qed

lemma two_powi_pos [simp]: "0 < (2::real) powi i"
  by (simp add: zero_less_power_int)

lemma two_powi_powr: "(2::real) powr of_int i = 2 powi i"
  by (simp add: powr_real_of_int')

lemma ulp_exponent_normal:
  assumes "2 powi e \<le> a" and "a < 2 powi (e + 1)" and "- 1022 \<le> e"
  shows "ulp_exponent a = e - 52"
proof -
  have pos: "0 < a"
    using assms(1) two_powi_pos [of e] by linarith
  have "\<lfloor>log 2 a\<rfloor> = e"
    using assms(1,2) pos two_powi_powr [of e] two_powi_powr [of "e + 1"]
    by (simp add: floor_log_eq_powr_iff)
  with assms(3) show ?thesis
    by (simp add: ulp_exponent_def)
qed

lemma ulp_exponent_subnormal:
  assumes "0 < a" and "a < 2 powi e" and "e \<le> - 1022"
  shows "ulp_exponent a = - 1074"
proof -
  have "log 2 a < log 2 (2 powr of_int e)"
    using assms(1,2) by (subst log_less_cancel_iff) (simp_all add: two_powi_powr)
  then have "log 2 a < - 1022"
    using assms(3) by simp
  then have "\<lfloor>log 2 a\<rfloor> < - 1022"
    by (simp add: floor_less_iff)
  then show ?thesis
    by (simp add: ulp_exponent_def)
qed

text \<open>The binade of a positive number: the exponent its quantum is taken from.\<close>

lemma binade_aux:
  assumes "0 < a" and emin: "emin = (- 1022 :: int)"
  obtains e where "ulp_exponent a = e - 52" and "- 1022 \<le> e" and "a < 2 powi (e + 1)"
    and "2 powi e \<le> a \<or> e = - 1022"
proof (cases "(2::real) powi emin \<le> a")
  case True
  define e where "e = \<lfloor>log 2 a\<rfloor>"
  have br: "2 powi e \<le> a \<and> a < 2 powi (e + 1)"
    using floor_log_eq_powr_iff [of a 2 e] assms
    by (simp add: e_def two_powi_powr [symmetric])
  have "- 1022 \<le> e"
  proof (rule ccontr)
    assume "\<not> - 1022 \<le> e"
    then have "e + 1 \<le> emin" using emin by linarith
    then have "(2::real) powi (e + 1) \<le> 2 powi emin"
      by (intro power_int_increasing) simp_all
    with br True show False by linarith
  qed
  moreover from this br have "ulp_exponent a = e - 52"
    by (intro ulp_exponent_normal) simp_all
  ultimately show ?thesis
    using br that by blast
next
  case False
  then have lt: "a < 2 powi emin" by simp
  then have "ulp_exponent a = emin - 52"
    using ulp_exponent_subnormal [OF assms(1), of emin] emin by simp
  moreover have "a < 2 powi (emin + 1)"
  proof -
    have "(2::real) powi emin \<le> 2 powi (emin + 1)"
      by (intro power_int_increasing) simp_all
    with lt show ?thesis by linarith
  qed
  ultimately show ?thesis
    using that [of emin] emin by blast
qed

lemma binade:
  assumes "0 < a"
  obtains e where "ulp_exponent a = e - 52" and "- 1022 \<le> e" and "a < 2 powi (e + 1)"
    and "2 powi e \<le> a \<or> e = - 1022"
  using binade_aux [OF assms refl] by blast


lemma nearest_binade:
  assumes "ulp_exponent a = e - 52"
  shows "nearest a = of_int (round_half_even (a / 2 powi (e - 52))) * 2 powi (e - 52)"
  by (simp add: nearest_def Let_def assms)

lemma binade_top: "(2::real) powi (e + 1) = 2 ^ 53 * 2 powi (e - 52)"
proof -
  show ?thesis
    using power_int_add [of "2::real" 53 "e - 52"] by (simp add: add.commute)
qed

lemma binade_bottom: "(2::real) powi e = 2 ^ 52 * 2 powi (e - 52)"
proof -
  show ?thesis
    using power_int_add [of "2::real" 52 "e - 52"] by simp
qed

lemma nearest_nonneg: "0 \<le> a \<Longrightarrow> 0 \<le> nearest a"
proof -
  assume "0 \<le> a"
  then have "of_int 0 \<le> a / 2 powi ulp_exponent a"
    by simp
  then have "0 \<le> round_half_even (a / 2 powi ulp_exponent a)"
    by (rule round_half_even_ge)
  then show ?thesis
    by (simp add: nearest_def Let_def)
qed

lemma nearest_le_top:
  assumes "ulp_exponent a = e - 52" and "a < 2 powi (e + 1)"
  shows "nearest a \<le> 2 powi (e + 1)"
proof -
  define q :: real where "q = 2 powi (e - 52)"
  have q: "0 < q" by (simp add: q_def)
  have "a < 2 ^ 53 * q"
    using assms(2) by (simp add: binade_top q_def)
  then have "a / q \<le> of_int (2 ^ 53)"
    using q by (simp add: pos_divide_le_eq)
  then have "round_half_even (a / q) \<le> 2 ^ 53"
    by (rule round_half_even_le)
  then have "of_int (round_half_even (a / q)) \<le> (2 ^ 53 :: real)"
    by simp
  then have "of_int (round_half_even (a / q)) * q \<le> 2 ^ 53 * q"
    using q by (simp only: mult_le_cancel_right_pos)
  then show ?thesis
    by (simp add: nearest_binade [OF assms(1)] binade_top q_def)
qed

lemma nearest_ge_bottom:
  assumes "ulp_exponent a = e - 52" and "2 powi e \<le> a"
  shows "2 powi e \<le> nearest a"
proof -
  define q :: real where "q = 2 powi (e - 52)"
  have q: "0 < q" by (simp add: q_def)
  have "2 ^ 52 * q \<le> a"
    using assms(2) by (simp add: binade_bottom [of e] q_def)
  then have "of_int (2 ^ 52) \<le> a / q"
    using q by (simp add: pos_le_divide_eq)
  then have "2 ^ 52 \<le> round_half_even (a / q)"
    by (rule round_half_even_ge)
  then have "(2 ^ 52 :: real) \<le> of_int (round_half_even (a / q))"
    by simp
  then have "2 ^ 52 * q \<le> of_int (round_half_even (a / q)) * q"
    using q by (simp only: mult_le_cancel_right_pos)
  then show ?thesis
    by (simp add: nearest_binade [OF assms(1)] binade_bottom [of e] q_def)
qed

lemma nearest_mono:
  assumes "0 < x" and "x \<le> y"
  shows "nearest x \<le> nearest y"
proof -
  from assms have y: "0 < y" by linarith
  obtain ex where ex: "ulp_exponent x = ex - 52" "- 1022 \<le> ex" "x < 2 powi (ex + 1)"
    "2 powi ex \<le> x \<or> ex = - 1022"
    using binade [OF assms(1)] by blast
  obtain ey where ey: "ulp_exponent y = ey - 52" "- 1022 \<le> ey" "y < 2 powi (ey + 1)"
    "2 powi ey \<le> y \<or> ey = - 1022"
    using binade [OF y] by blast
  consider "ex = ey" | "ex < ey" | "ey < ex"
    by linarith
  then show ?thesis
  proof cases
    case 1
    define q :: real where "q = 2 powi (ex - 52)"
    have q: "0 < q" by (simp add: q_def)
    have "x / q \<le> y / q"
      using assms(2) q by (simp add: divide_right_mono)
    then have "round_half_even (x / q) \<le> round_half_even (y / q)"
      by (rule round_half_even_mono)
    then have "(of_int (round_half_even (x / q)) :: real) \<le> of_int (round_half_even (y / q))"
      by linarith
    then have "of_int (round_half_even (x / q)) * q \<le> of_int (round_half_even (y / q)) * q"
      using q by (simp only: mult_le_cancel_right_pos)
    then show ?thesis
      using ex(1) ey(1) 1 by (simp add: nearest_binade q_def)
  next
    case 2
    have "nearest x \<le> 2 powi (ex + 1)"
      using ex(1,3) by (rule nearest_le_top)
    also have "(2::real) powi (ex + 1) \<le> 2 powi ey"
      using 2 by (intro power_int_increasing) simp_all
    also have "2 powi ey \<le> nearest y"
      using ey ex(2) 2 by (intro nearest_ge_bottom) auto
    finally show ?thesis .
  next
    case 3
    have "y < 2 powi (ey + 1)" by (rule ey(3))
    also have "(2::real) powi (ey + 1) \<le> 2 powi ex"
      using 3 by (intro power_int_increasing) simp_all
    also have "2 powi ex \<le> x"
      using ex(4) ey(2) 3 by auto
    finally show ?thesis
      using assms(2) by linarith
  qed
qed

lemma nearest_exact:
  assumes "0 < m" and "m < 2 ^ 53" and "- 1074 \<le> i"
  shows "nearest (of_int m * 2 powi i) = of_int m * 2 powi i"
proof -
  define a :: real where "a = of_int m * 2 powi i"
  have a: "0 < a"
    using assms(1) by (simp add: a_def)
  obtain e where e: "ulp_exponent a = e - 52" "- 1022 \<le> e" "a < 2 powi (e + 1)"
    "2 powi e \<le> a \<or> e = - 1022"
    using binade [OF a] by blast
  have le: "e \<le> 52 + i"
  proof (rule ccontr)
    assume "\<not> e \<le> 52 + i"
    then have big: "53 + i \<le> e" by linarith
    with assms(3) e(4) have "2 powi e \<le> a" by auto
    moreover have "a < 2 ^ 53 * 2 powi i"
    proof -
      have "(of_int m :: real) < 2 ^ 53"
        using assms(2) by (metis of_int_less_iff of_int_numeral of_int_power)
      then show ?thesis
        by (simp add: a_def)
    qed
    moreover have "(2::real) ^ 53 * 2 powi i = 2 powi (53 + i)"
      using power_int_add [of "2::real" 53 i] by simp
    moreover have "(2::real) powi (53 + i) \<le> 2 powi e"
      using big by (intro power_int_increasing) simp_all
    ultimately show False by linarith
  qed
  define j where "j = nat (i - (e - 52))"
  have j: "i = int j + (e - 52)"
    using le by (simp add: j_def)
  have "(2::real) powi i = 2 powi (int j) * 2 powi (e - 52)"
    unfolding j by (rule power_int_add) simp
  then have split: "(2::real) powi i = 2 ^ j * 2 powi (e - 52)"
    by simp
  have "a / 2 powi (e - 52) = of_int (m * 2 ^ j)"
    by (simp add: a_def split)
  then have "round_half_even (a / 2 powi (e - 52)) = m * 2 ^ j"
    by (simp only: round_half_even_of_int)
  then have "nearest a = of_int (m * 2 ^ j) * 2 powi (e - 52)"
    by (simp only: nearest_binade [OF e(1)])
  also have "\<dots> = a"
    by (simp add: a_def split)
  finally show ?thesis
    by (simp only: a_def)
qed


lemma representable_minus: "representable x \<Longrightarrow> representable (- x)"
proof -
  assume "representable x"
  then obtain m i where "x = of_int m * 2 powi i" "\<bar>m\<bar> < 2 ^ 53" "- 1074 \<le> i" "i \<le> 971"
    by (auto simp: representable_def)
  then have "- x = of_int (- m) * 2 powi i \<and> \<bar>- m\<bar> < 2 ^ 53 \<and> - 1074 \<le> i \<and> i \<le> 971"
    by simp
  then show ?thesis
    unfolding representable_def by blast
qed

lemma representable_pos:
  assumes "representable x" and "0 < x"
  obtains m i where "x = of_int m * 2 powi i" and "0 < m" and "m < 2 ^ 53"
    and "- 1074 \<le> i" and "i \<le> 971"
proof -
  from assms(1) obtain m i where
    mi: "x = of_int m * 2 powi i" "\<bar>m\<bar> < 2 ^ 53" "- 1074 \<le> i" "i \<le> 971"
    by (auto simp: representable_def)
  have "0 < of_int m * (2::real) powi i"
    using assms(2) mi(1) by simp
  then have "0 < (of_int m :: real)"
    using two_powi_pos [of i] by (rule zero_less_mult_pos2)
  then have "0 < m" by simp
  with mi that show ?thesis by auto
qed

lemma representable_less:
  assumes "representable x" and "0 < x"
  shows "x < 2 ^ 1024"
proof -
  from assms obtain m i where
    mi: "x = of_int m * 2 powi i" "0 < m" "m < 2 ^ 53" "- 1074 \<le> i" "i \<le> 971"
    by (rule representable_pos)
  have "(2::real) powi i \<le> 2 powi 971"
    using mi(5) by (intro power_int_increasing) simp_all
  then have "of_int m * 2 powi i \<le> of_int m * (2::real) powi 971"
    using mi(2) by (simp only: mult_le_cancel_left_pos of_int_0_less_iff)
  moreover have "(of_int m :: real) < 2 ^ 53"
    using mi(3) by simp
  then have "of_int m * (2::real) powi 971 < 2 ^ 53 * 2 powi 971"
    by (simp only: mult_less_cancel_right_pos two_powi_pos)
  moreover have "(2::real) ^ 53 * 2 powi 971 = 2 ^ 1024"
    using power_int_add [of "2::real" 53 971] by simp
  ultimately show ?thesis
    using mi(1) by linarith
qed

lemma nearest_representable:
  assumes "representable x" and "0 < x"
  shows "nearest x = x"
proof -
  from assms obtain m i where
    mi: "x = of_int m * 2 powi i" "0 < m" "m < 2 ^ 53" "- 1074 \<le> i" "i \<le> 971"
    by (rule representable_pos)
  show ?thesis
    unfolding mi(1) using mi(2,3,4) by (rule nearest_exact)
qed

lemma binary64_pos:
  "0 < x \<Longrightarrow> nearest x < 2 ^ 1024 \<Longrightarrow> binary64 x = Num (nearest x)"
  by (simp add: binary64_def)

lemma binary64_neg:
  "x < 0 \<Longrightarrow> nearest (- x) < 2 ^ 1024 \<Longrightarrow> binary64 x = Num (- nearest (- x))"
  by (simp add: binary64_def)

lemma binary64_zero [simp]: "binary64 0 = Num 0"
  by (simp add: binary64_def)

lemma binary64_minus: "binary64 (- x) = js_neg (binary64 x)"
  by (simp add: binary64_def signed_inf_def sgn_if)

lemma binary64_exact:
  assumes "representable x"
  shows "binary64 x = Num x"
proof -
  consider "x = 0" | "0 < x" | "x < 0" by linarith
  then show ?thesis
  proof cases
    case 1
    then show ?thesis by simp
  next
    case 2
    with assms show ?thesis
      using binary64_pos [of x] representable_less [of x] by (simp add: nearest_representable)
  next
    case 3
    then have p: "0 < - x" by simp
    have r: "representable (- x)"
      using assms by (rule representable_minus)
    show ?thesis
      using binary64_neg [of x] 3 representable_less [OF r p] nearest_representable [OF r p]
      by simp
  qed
qed

lemma binary64_between:
  assumes "lo \<le> x" and "x \<le> hi" and "representable lo" and "representable hi"
  shows "\<exists>y. binary64 x = Num y \<and> lo \<le> y \<and> y \<le> hi"
proof -
  consider "x = 0" | "0 < x" | "x < 0" by linarith
  then show ?thesis
  proof cases
    case 1
    with assms show ?thesis by simp
  next
    case 2
    then have hi: "0 < hi" using assms(2) by linarith
    have up: "nearest x \<le> hi"
      using nearest_mono [OF 2 assms(2)] nearest_representable [OF assms(4) hi] by simp
    then have "nearest x < 2 ^ 1024"
      using representable_less [OF assms(4) hi] by linarith
    then have eq: "binary64 x = Num (nearest x)"
      using 2 by (simp add: binary64_pos)
    have "lo \<le> nearest x"
    proof (cases "0 < lo")
      case True
      then show ?thesis
        using nearest_mono [OF True assms(1)] nearest_representable [OF assms(3) True] by simp
    next
      case False
      then show ?thesis
        using nearest_nonneg [of x] 2 by linarith
    qed
    with eq up show ?thesis by simp
  next
    case 3
    then have p: "0 < - x" by simp
    have lo: "0 < - lo" using assms(1) 3 by linarith
    have rlo: "representable (- lo)" using assms(3) by (rule representable_minus)
    have rhi: "representable (- hi)" using assms(4) by (rule representable_minus)
    have up: "nearest (- x) \<le> - lo"
      using nearest_mono [OF p, of "- lo"] assms(1) nearest_representable [OF rlo lo] by simp
    then have "nearest (- x) < 2 ^ 1024"
      using representable_less [OF rlo lo] by linarith
    then have eq: "binary64 x = Num (- nearest (- x))"
      using 3 by (simp add: binary64_neg)
    have "- nearest (- x) \<le> hi"
    proof (cases "hi < 0")
      case True
      then have h: "0 < - hi" by simp
      show ?thesis
        using nearest_mono [OF h, of "- x"] assms(2) nearest_representable [OF rhi h] by simp
    next
      case False
      then show ?thesis
        using nearest_nonneg [of "- x"] p by linarith
    qed
    with eq up show ?thesis by simp
  qed
qed

lemma binary64_overflow:
  assumes "2 ^ 1024 \<le> x"
  shows "binary64 x = PInf"
proof -
  have pos: "0 < x"
    using assms by (smt (verit) zero_less_power)
  have "nearest (of_int 1 * 2 powi 1024) = of_int 1 * 2 powi 1024"
    by (rule nearest_exact) simp_all
  then have "nearest (2 ^ 1024) = 2 ^ 1024"
    by simp
  moreover have "nearest (2 ^ 1024) \<le> nearest x"
    using assms by (intro nearest_mono) simp_all
  ultimately have "2 ^ 1024 \<le> nearest x"
    by simp
  then show ?thesis
    using pos by (simp add: binary64_def signed_inf_def)
qed

lemma representable_int:
  assumes "\<bar>k\<bar> \<le> 2 ^ 53"
  shows "representable (of_int k)"
proof (cases "\<bar>k\<bar> = 2 ^ 53")
  case True
  then have "k = 2 ^ 53 \<or> k = - (2 ^ 53)" by linarith
  then have "of_int k = of_int (k div 2) * (2::real) powi 1 \<and> \<bar>k div 2\<bar> < 2 ^ 53"
    by auto
  then show ?thesis
    unfolding representable_def by (intro exI [of _ "k div 2"] exI [of _ 1]) simp
next
  case False
  with assms have "\<bar>k\<bar> < 2 ^ 53" by linarith
  then show ?thesis
    unfolding representable_def by (intro exI [of _ k] exI [of _ 0]) simp
qed

lemma representable_dyadic:
  assumes "\<bar>k\<bar> < 2 ^ 53" and "j \<le> 1074"
  shows "representable (of_int k / 2 ^ j)"
proof -
  have "(2::real) powi (- int j) = 1 / 2 ^ j"
    by (simp add: power_int_minus field_simps)
  then have "of_int k / 2 ^ j = of_int k * (2::real) powi (- int j)"
    by simp
  with assms show ?thesis
    unfolding representable_def by (intro exI [of _ k] exI [of _ "- int j"]) simp
qed

lemma representable_pow2:
  assumes "n \<le> 1023"
  shows "representable (2 ^ n)"
proof (cases "n \<le> 971")
  case True
  have "(2::real) ^ n = of_int 1 * 2 powi (int n)"
    by simp
  with True show ?thesis
    unfolding representable_def by (intro exI [of _ 1] exI [of _ "int n"]) simp
next
  case False
  define d where "d = n - 971"
  have n: "n = d + 971" and d: "d \<le> 52"
    using False assms by (simp_all add: d_def)
  have "(2::real) ^ n = of_int (2 ^ d) * 2 powi 971"
    by (simp add: n power_add)
  moreover have "\<bar>2 ^ d :: int\<bar> < 2 ^ 53"
  proof -
    have "(2::int) ^ d \<le> 2 ^ 52"
      using d by (intro power_increasing) simp_all
    then show ?thesis by simp
  qed
  ultimately show ?thesis
    unfolding representable_def by (intro exI [of _ "2 ^ d"] exI [of _ 971]) simp
qed


lemma nearest_eval:
  assumes "2 powi e \<le> a" and "a < 2 powi (e + 1)" and "- 1022 \<le> e"
  shows "nearest a = of_int (round_half_even (a / 2 powi (e - 52))) * 2 powi (e - 52)"
  using nearest_binade [OF ulp_exponent_normal [OF assms]] .


lemma representable_zero [simp]: "representable 0"
  unfolding representable_def by (intro exI [of _ 0]) simp

lemma nearest_range:
  assumes "0 < a" and "nearest a < 2 ^ 1024"
  shows "representable (nearest a)"
proof -
  obtain e where e: "ulp_exponent a = e - 52" "- 1022 \<le> e" "a < 2 powi (e + 1)"
    "2 powi e \<le> a \<or> e = - 1022"
    using binade [OF assms(1)] by blast
  define q :: real where "q = 2 powi (e - 52)"
  define M where "M = round_half_even (a / q)"
  have q: "0 < q" by (simp add: q_def)
  have near: "nearest a = of_int M * q"
    by (simp add: nearest_binade [OF e(1)] M_def q_def)
  have "of_int 0 \<le> a / q"
    using assms(1) q by simp
  then have M0: "0 \<le> M"
    unfolding M_def by (rule round_half_even_ge)
  have "a < 2 ^ 53 * q"
    using e(3) by (simp add: binade_top q_def)
  then have "a / q \<le> of_int (2 ^ 53)"
    using q by (simp add: pos_divide_le_eq)
  then have M53: "M \<le> 2 ^ 53"
    unfolding M_def by (rule round_half_even_le)
  have e1023: "e \<le> 1023"
  proof (rule ccontr)
    assume "\<not> e \<le> 1023"
    then have big: "1024 \<le> e" by linarith
    with e(4) have "2 powi e \<le> a" by auto
    with e(1) have "2 powi e \<le> nearest a"
      by (rule nearest_ge_bottom)
    moreover have "(2::real) powi 1024 \<le> 2 powi e"
      using big by (intro power_int_increasing) simp_all
    ultimately show False
      using assms(2) by simp
  qed
  show ?thesis
  proof (cases "M = 2 ^ 53")
    case True
    then have top: "nearest a = 2 powi (e + 1)"
      by (simp add: near binade_top q_def)
    have "e + 1 < 1024"
    proof (rule ccontr)
      assume "\<not> e + 1 < 1024"
      then have "(2::real) powi 1024 \<le> 2 powi (e + 1)"
        by (intro power_int_increasing) simp_all
      with top assms(2) show False by simp
    qed
    then have i: "- 1074 \<le> e - 51" "e - 51 \<le> 971"
      using e(2) by simp_all
    have eq: "(2::real) powi (e + 1) = of_int (2 ^ 52) * 2 powi (e - 51)"
      using power_int_add [of "2::real" 52 "e - 51"] by (simp add: add.commute)
    have m: "\<bar>2 ^ 52 :: int\<bar> < 2 ^ 53"
      by simp
    show ?thesis
      unfolding representable_def top using eq m i by blast
  next
    case False
    with M53 have "M < 2 ^ 53" by linarith
    with M0 e(2) e1023 show ?thesis
      unfolding representable_def near q_def
      by (intro exI [of _ M] exI [of _ "e - 52"]) simp
  qed
qed

lemma binary64_range:
  assumes "binary64 x = Num y"
  shows "representable y"
proof -
  consider "x = 0" | "0 < x" | "x < 0" by linarith
  then show ?thesis
  proof cases
    case 1
    with assms show ?thesis by auto
  next
    case 2
    with assms have "nearest x < 2 ^ 1024" and "y = nearest x"
      by (auto simp: binary64_def signed_inf_def split: if_splits)
    with 2 show ?thesis
      by (simp add: nearest_range)
  next
    case 3
    with assms have "nearest (- x) < 2 ^ 1024" and "y = - nearest (- x)"
      by (auto simp: binary64_def signed_inf_def split: if_splits)
    with 3 show ?thesis
      using representable_minus [OF nearest_range [of "- x"]] by simp
  qed
qed

lemma representable_pred:
  assumes "representable x" and "1 \<le> x" and "x \<le> 2 ^ 53"
  shows "representable (x - 1)"
proof -
  have pos: "0 < x" using assms(2) by linarith
  from assms(1) pos obtain m i where
    mi: "x = of_int m * 2 powi i" "0 < m" "m < 2 ^ 53" "- 1074 \<le> i" "i \<le> 971"
    by (rule representable_pos)
  show ?thesis
  proof (cases "0 \<le> i")
    case True
    define k where "k = m * 2 ^ nat i"
    have x: "x = of_int k"
      using True by (simp add: mi(1) k_def power_int_def)
    then have "x - 1 = of_int (k - 1)"
      by simp
    moreover have "\<bar>k - 1\<bar> \<le> 2 ^ 53"
    proof -
      have "(of_int k :: real) \<le> 2 ^ 53" "(1::real) \<le> of_int k"
        using assms(2,3) x by simp_all
      then have "k \<le> 2 ^ 53" "1 \<le> k"
        by simp_all
      then show ?thesis by simp
    qed
    ultimately show ?thesis
      by (simp only: representable_int)
  next
    case False
    define j where "j = nat (- i)"
    have i: "i = - int j" and j: "j \<le> 1074"
      using False mi(4) by (simp_all add: j_def)
    have p: "(2::real) powi i = 1 / 2 ^ j"
      by (simp add: i power_int_minus field_simps)
    have x: "x = of_int m / 2 ^ j"
      by (simp add: mi(1) p)
    have "(2::real) ^ j \<le> of_int m"
      using assms(2) by (simp add: x pos_le_divide_eq)
    then have "(of_int (2 ^ j) :: real) \<le> of_int m"
      by simp
    then have low: "2 ^ j \<le> m"
      by (simp only: of_int_le_iff)
    have "x - 1 = of_int (m - 2 ^ j) / 2 ^ j"
      by (simp add: x field_simps)
    moreover have "\<bar>m - 2 ^ j\<bar> < 2 ^ 53"
    proof -
      have "0 < (2::int) ^ j" by simp
      with low mi(3) show ?thesis by linarith
    qed
    ultimately show ?thesis
      using j by (simp only: representable_dyadic)
  qed
qed

lemma binary64_round:
  assumes "2 powi e \<le> x" and "x < 2 powi (e + 1)" and "- 1022 \<le> e" and "e \<le> 1022"
    and "round_half_even (x / 2 powi (e - 52)) = m"
  shows "binary64 x = Num (of_int m * 2 powi (e - 52))"
proof -
  have pos: "0 < x"
    using assms(1) two_powi_pos [of e] by linarith
  have u: "ulp_exponent x = e - 52"
    using assms(1,2,3) by (rule ulp_exponent_normal)
  have n: "nearest x = of_int m * 2 powi (e - 52)"
    using nearest_binade [OF u] assms(5) by simp
  have "nearest x \<le> 2 powi (e + 1)"
    using u assms(2) by (rule nearest_le_top)
  also have "(2::real) powi (e + 1) \<le> 2 powi 1023"
    using assms(4) by (intro power_int_increasing) simp_all
  also have "(2::real) powi 1023 < 2 ^ 1024"
    by simp
  finally show ?thesis
    using pos n by (simp add: binary64_pos)
qed

lemma binary64_sqrt_round:
  assumes "2 ^ 52 < m" and "m < 2 ^ 53" and "- 1022 \<le> e" and "e \<le> 1022"
    and "((of_int m - 1/2) * 2 powi (e - 52))\<^sup>2 < v"
    and "v < ((of_int m + 1/2) * 2 powi (e - 52))\<^sup>2"
  shows "binary64 (sqrt v) = Num (of_int m * 2 powi (e - 52))"
proof -
  define q :: real where "q = 2 powi (e - 52)"
  have q: "0 < q" by (simp add: q_def)
  have m: "(2 ^ 52 :: real) + 1 \<le> of_int m" "(of_int m :: real) + 1 \<le> 2 ^ 53"
  proof -
    have "2 ^ 52 + 1 \<le> m" "m + 1 \<le> 2 ^ 53"
      using assms(1,2) by simp_all
    then have "(of_int (2 ^ 52 + 1) :: real) \<le> of_int m" "(of_int (m + 1) :: real) \<le> of_int (2 ^ 53)"
      by (simp_all only: of_int_le_iff)
    then show "(2 ^ 52 :: real) + 1 \<le> of_int m" "(of_int m :: real) + 1 \<le> 2 ^ 53"
      by simp_all
  qed
  have lo: "(of_int m - 1/2) * q < sqrt v"
    using assms(5) by (intro real_less_rsqrt) (simp add: q_def)
  have hi: "sqrt v < (of_int m + 1/2) * q"
  proof (rule real_less_lsqrt)
    show "0 \<le> (of_int m + 1/2) * q"
      using m(1) q by (intro mult_nonneg_nonneg) simp_all
    show "v < ((of_int m + 1/2) * q)\<^sup>2"
      using assms(6) by (simp add: q_def)
  qed
  have "2 ^ 52 * q \<le> (of_int m - 1/2) * q"
    using m(1) q by (simp only: mult_le_cancel_right_pos)
  with lo have "2 ^ 52 * q \<le> sqrt v"
    by linarith
  then have b1: "2 powi e \<le> sqrt v"
    by (simp only: binade_bottom [of e] q_def)
  have "(of_int m + 1/2) * q \<le> 2 ^ 53 * q"
    using m(2) q by (simp only: mult_le_cancel_right_pos)
  with hi have "sqrt v < 2 ^ 53 * q"
    by linarith
  then have b2: "sqrt v < 2 powi (e + 1)"
    by (simp only: binade_top [of e] q_def)
  have "of_int m - 1/2 < sqrt v / q" "sqrt v / q < of_int m + 1/2"
    using lo hi q by (simp_all add: pos_less_divide_eq pos_divide_less_eq)
  then have "round_half_even (sqrt v / q) = m"
    by (rule round_half_even_unique)
  then show ?thesis
    using binary64_round [OF b1 b2 assms(3,4)] by (simp add: q_def)
qed

lemma binary64_of_int: "\<bar>k\<bar> \<le> 2 ^ 53 \<Longrightarrow> binary64 (of_int k) = Num (of_int k)"
  by (simp add: binary64_exact representable_int)

lemma binary64_numeral:
  "numeral w \<le> (2 ^ 53 :: int) \<Longrightarrow> binary64 (numeral w) = Num (numeral w)"
  using binary64_of_int [of "numeral w"] by simp

lemma binary64_neg_numeral:
  "numeral w \<le> (2 ^ 53 :: int) \<Longrightarrow> binary64 (- numeral w) = Num (- numeral w)"
  using binary64_of_int [of "- numeral w"] by simp

lemma binary64_one [simp]: "binary64 1 = Num 1"
  using binary64_of_int [of 1] by simp

lemma binary64_dyadic:
  "\<bar>k\<bar> < 2 ^ 53 \<Longrightarrow> j \<le> 1074 \<Longrightarrow> x = of_int k / 2 ^ j \<Longrightarrow> binary64 x = Num x"
  by (simp add: binary64_exact representable_dyadic)

section \<open>Arithmetic on given numbers\<close>

lemma binary64_fractions:
  "binary64 (1/2) = Num (1/2)" "binary64 (1/4) = Num (1/4)" "binary64 (1/8) = Num (1/8)"
  "binary64 (1/16) = Num (1/16)"
  using binary64_dyadic [of 1 1 "1/2"] binary64_dyadic [of 1 2 "1/4"]
    binary64_dyadic [of 1 3 "1/8"] binary64_dyadic [of 1 4 "1/16"]
  by simp_all

lemma binary64_nat: "k \<le> 2 ^ 53 \<Longrightarrow> binary64 (real k) = Num (real k)"
proof -
  assume "k \<le> 2 ^ 53"
  then have "int k \<le> int (2 ^ 53)"
    by (simp only: of_nat_le_iff)
  then have "int k \<le> 2 ^ 53"
    by simp
  then have "binary64 (of_int (int k)) = Num (of_int (int k))"
    by (intro binary64_of_int) simp
  then show ?thesis by simp
qed

lemma huge_pos: "0 < huge"
  by (simp add: huge_def)

lemma binary64_huge: "binary64 huge = Num huge"
  unfolding huge_def by (intro binary64_exact representable_pow2) simp

lemma binary64_twice_huge: "binary64 (2 * huge) = PInf" "binary64 (huge + huge) = PInf"
  by (rule binary64_overflow, simp add: huge_def)+

lemma invalid_date_simps:
  "invalid_date ''2024-01-01'' = False" "invalid_date ''2024-01-02'' = False"
  "invalid_date ''2024-01-03'' = False" "invalid_date [CHR 0x20, CHR 0xC2, CHR 0xA0] = True"
  by (simp_all add: invalid_date_def trim_def trimStart_def trimEnd_def white_space_def)

section \<open>The Daily Aggregator: weighted means and conservation of clicks\<close>

lemma totals_of_Nil: "totals_of [] = empty_accumulator"
  by (simp add: totals_of_def empty_accumulator_def js_sum_def)

lemma totals_of_snoc:
  "totals_of (rs @ [r]) =
     (totals_of rs)
       \<lparr>acc_clicks := js_add (acc_clicks (totals_of rs)) (finite_or_zero (row_clicks r)),
        acc_impressions :=
          js_add (acc_impressions (totals_of rs)) (finite_or_zero (row_impressions r)),
        ctrWeightedSum := js_add (ctrWeightedSum (totals_of rs))
          (js_mul (finite_or_zero (row_ctr r)) (finite_or_zero (row_impressions r))),
        positionWeightedSum := js_add (positionWeightedSum (totals_of rs))
          (js_mul (finite_or_zero (row_position r)) (finite_or_zero (row_impressions r)))\<rparr>"
  by (simp add: totals_of_def js_sum_def)

lemma rows_on_snoc:
  "rows_on d (rs @ [r]) =
     (if \<not> invalid_date (analytics_date r) \<and> analytics_date r = d
      then rows_on d rs @ [r] else rows_on d rs)"
  by (auto simp add: rows_on_def valid_rows_def)

lemma tracks_Nil: "tracks [] []"
  by (simp add: tracks_def rows_on_def valid_rows_def)

lemma accumulate_row_tracked:
  assumes "tracks m rs" and "\<not> invalid_date (analytics_date r)"
  shows "accumulate_row m r =
           AList.update (analytics_date r) (totals_of (rows_on (analytics_date r) rs @ [r])) m"
proof -
  have "(case map_of m (analytics_date r) of Some e \<Rightarrow> e | None \<Rightarrow> empty_accumulator) =
          totals_of (rows_on (analytics_date r) rs)"
    using assms(1) by (simp add: tracks_def totals_of_Nil)
  with assms(2) show ?thesis
    by (simp add: accumulate_row_def Let_def totals_of_snoc)
qed

lemma tracks_step:
  assumes "tracks m rs"
  shows "tracks (accumulate_row m r) (rs @ [r])"
proof (cases "invalid_date (analytics_date r)")
  case True
  with assms show ?thesis
    by (simp add: tracks_def accumulate_row_def rows_on_snoc)
next
  case False
  show ?thesis
    unfolding tracks_def accumulate_row_tracked [OF assms False] using assms False
    by (simp add: tracks_def distinct_update update_conv' rows_on_snoc)
qed

lemma tracks_foldl: "tracks (foldl accumulate_row [] rs) rs"
proof (induction rs rule: rev_induct)
  case Nil
  show ?case by (simp add: tracks_Nil)
next
  case (snoc r rs)
  then show ?case by (simp add: tracks_step)
qed

lemma entries_tracked:
  assumes "tracks m rs" and "(d, acc) \<in> set m"
  shows "rows_on d rs \<noteq> [] \<and> acc = totals_of (rows_on d rs)"
proof -
  from assms have "distinct (map fst m)"
    by (simp add: tracks_def)
  with assms(2) have "map_of m d = Some acc"
    by simp
  moreover from assms(1)
  have "map_of m d = (if rows_on d rs = [] then None else Some (totals_of (rows_on d rs)))"
    by (simp add: tracks_def)
  ultimately show ?thesis
    by (simp split: if_splits)
qed

lemma buildDailyAggregates_Inr:
  "buildDailyAggregates rows = Inr aggs \<Longrightarrow>
   aggs = sort_key date (map finalize (foldl accumulate_row [] (fst rows)))"
  by (auto simp: buildDailyAggregates_def Let_def split: option.splits if_splits)

lemma finalize_fields:
  "date (finalize (d, acc)) = d"
  "clicks (finalize (d, acc)) = finite_or_zero (acc_clicks acc)"
  "ctr (finalize (d, acc)) =
     finite_or_zero (if js_gt (acc_impressions acc) (Num 0)
                     then js_div (ctrWeightedSum acc) (acc_impressions acc) else Num 0)"
  "position (finalize (d, acc)) =
     finite_or_zero (if js_gt (acc_impressions acc) (Num 0)
                     then js_div (positionWeightedSum acc) (acc_impressions acc) else Num 0)"
  by (simp_all add: finalize_def Let_def)

lemma isFinite_finite_or_zero: "isFinite (finite_or_zero x)"
  by (simp add: finite_or_zero_def)

lemma sample_result: "buildDailyAggregates (sample_rows, None) = Inr sample_aggregates"
  by (simp add: buildDailyAggregates_def sample_rows_def mk_row_def accumulate_row_def
       invalid_date_simps finite_or_zero_def empty_accumulator_def finalize_def Let_def
       sample_aggregates_def binary64_numeral binary64_fractions)

text \<open>
  C1, as amended. Every record \<open>a\<close> that \<open>buildDailyAggregates\<close> returns stands for
  input rows with its date key (rows whose date key is empty or blank are skipped).
  With the sums over these rows added up in binary64 arithmetic, in the order of the
  rows, a non-finite field counting as 0: when the sum of impressions is positive,
  \<open>ctr\<close> is the sum of \<open>ctr\<^sub>i \<times> impressions\<^sub>i\<close> divided by the sum of
  \<open>impressions\<^sub>i\<close> if that quotient is finite, and 0 if it is not, and \<open>position\<close>
  likewise; when the sum of impressions is zero, both are exactly 0; and both are
  finite, whatever the input.
\<close>

theorem weighted_metrics:
  assumes "buildDailyAggregates rows = Inr aggs" and "a \<in> set aggs"
  shows "rows_on (date a) (fst rows) \<noteq> [] \<and>
         (js_gt (impressions_total (date a) (fst rows)) (Num 0) \<longrightarrow>
            ctr a = finite_or_zero (js_div (ctr_weighted_total (date a) (fst rows))
                                      (impressions_total (date a) (fst rows))) \<and>
            position a = finite_or_zero (js_div (position_weighted_total (date a) (fst rows))
                                      (impressions_total (date a) (fst rows)))) \<and>
         (impressions_total (date a) (fst rows) = Num 0 \<longrightarrow>
            ctr a = Num 0 \<and> position a = Num 0) \<and>
         isFinite (ctr a) \<and> isFinite (position a)"
proof -
  let ?m = "foldl accumulate_row [] (fst rows)"
  from buildDailyAggregates_Inr [OF assms(1)] assms(2)
  obtain d acc where e: "(d, acc) \<in> set ?m" and a: "a = finalize (d, acc)"
    by auto
  from entries_tracked [OF tracks_foldl e]
  have ne: "rows_on d (fst rows) \<noteq> []" and acc: "acc = totals_of (rows_on d (fst rows))"
    by simp_all
  show ?thesis
    using ne
    by (simp add: a finalize_fields acc [symmetric] impressions_total_def
        ctr_weighted_total_def position_weighted_total_def isFinite_finite_or_zero)
       (simp add: finite_or_zero_def)
qed

theorem weighted_metrics_witness:
  "buildDailyAggregates (sample_rows, None) = Inr sample_aggregates \<and>
   \<lparr>date = ''2024-01-01'', clicks = Num 10, impressions = Num 2048,
     ctr = Num (1/4), position = Num 1\<rparr> \<in> set sample_aggregates \<and>
   \<lparr>date = ''2024-01-03'', clicks = Num 4, impressions = Num 0,
     ctr = Num 0, position = Num 0\<rparr> \<in> set sample_aggregates \<and>
   impressions_total ''2024-01-01'' sample_rows = Num 2048 \<and>
   js_gt (impressions_total ''2024-01-01'' sample_rows) (Num 0) \<and>
   ctr_weighted_total ''2024-01-01'' sample_rows = Num 512 \<and>
   position_weighted_total ''2024-01-01'' sample_rows = Num 2048 \<and>
   finite_or_zero (js_div (Num 512) (Num 2048)) = Num (1/4) \<and>
   impressions_total ''2024-01-03'' sample_rows = Num 0 \<and>
   rows_on ''2024-01-01'' sample_rows \<noteq> []"
proof -
  have totals:
    "impressions_total ''2024-01-01'' sample_rows = Num 2048"
    "ctr_weighted_total ''2024-01-01'' sample_rows = Num 512"
    "position_weighted_total ''2024-01-01'' sample_rows = Num 2048"
    "impressions_total ''2024-01-03'' sample_rows = Num 0"
    by (simp_all add: impressions_total_def ctr_weighted_total_def position_weighted_total_def
        totals_of_def rows_on_def valid_rows_def sample_rows_def mk_row_def invalid_date_simps
        js_sum_def finite_or_zero_def binary64_numeral binary64_fractions)
  show ?thesis
    using weighted_metrics [OF sample_result,
        of "\<lparr>date = ''2024-01-01'', clicks = Num 10, impressions = Num 2048,
             ctr = Num (1/4), position = Num 1\<rparr>"]
      weighted_metrics [OF sample_result,
        of "\<lparr>date = ''2024-01-03'', clicks = Num 4, impressions = Num 0,
             ctr = Num 0, position = Num 0\<rparr>"]
    by (simp add: sample_result sample_aggregates_def totals)
qed

text \<open>
  C1 as stated fails on a finite-field input whose weighted sum overflows: one row with
  \<open>2 ^ 1023\<close> impressions and a click-through rate of 2. The sum of impressions is
  positive and finite and the quotient of the sums is 2, but the product is
  \<open>Infinity\<close>, so is the quotient that the code computes, and the final
  \<open>isFinite\<close> guard returns \<open>ctr = 0\<close>.
\<close>

theorem weighted_metrics_counterexample:
  "buildDailyAggregates (overflow_rows, None) =
     Inr [\<lparr>date = ''2024-01-01'', clicks = Num 3, impressions = Num huge,
           ctr = Num 0, position = Num 1\<rparr>] \<and>
   0 < huge \<and>
   impressions_sum ''2024-01-01'' overflow_rows = huge \<and>
   ctr_weighted ''2024-01-01'' overflow_rows = 2 * huge \<and>
   spec_weighted_ctr ''2024-01-01'' overflow_rows = 2 \<and>
   impressions_total ''2024-01-01'' overflow_rows = Num huge \<and>
   ctr_weighted_total ''2024-01-01'' overflow_rows = PInf"
  using huge_pos
  by (simp add: buildDailyAggregates_def overflow_rows_def mk_row_def accumulate_row_def
       invalid_date_simps finite_or_zero_def empty_accumulator_def finalize_def Let_def
       spec_weighted_ctr_def impressions_sum_def ctr_weighted_def rows_on_def valid_rows_def
       impressions_total_def ctr_weighted_total_def totals_of_def js_sum_def
       binary64_numeral binary64_huge binary64_twice_huge signed_inf_def)

text \<open>
  Where the impressions of a date sum to a negative number the code returns 0 for both
  means, by its guard \<open>impressions > 0\<close>.
\<close>

lemma negative_impressions:
  "buildDailyAggregates (negative_rows, None) =
     Inr [\<lparr>date = ''2024-01-01'', clicks = Num 3, impressions = Num (- 10),
           ctr = Num 0, position = Num 0\<rparr>] \<and>
   impressions_total ''2024-01-01'' negative_rows = Num (- 10) \<and>
   ctr_weighted_total ''2024-01-01'' negative_rows = Num (- 5)"
  by (simp add: buildDailyAggregates_def negative_rows_def mk_row_def accumulate_row_def
       invalid_date_simps finite_or_zero_def empty_accumulator_def finalize_def Let_def
       impressions_total_def ctr_weighted_total_def totals_of_def js_sum_def
       rows_on_def valid_rows_def binary64_numeral binary64_neg_numeral)

subsection \<open>Conservation of clicks\<close>

lemma foldl_js_add_nat:
  "a + sum_list ns \<le> 2 ^ 53 \<Longrightarrow>
   foldl js_add (Num (real a)) (map (\<lambda>n. Num (real n)) ns) = Num (real (a + sum_list ns))"
proof (induction ns arbitrary: a)
  case Nil
  show ?case by simp
next
  case (Cons n ns)
  have "a + n \<le> 2 ^ 53"
    using Cons.prems by simp
  then have "binary64 (real (a + n)) = Num (real (a + n))"
    by (rule binary64_nat)
  then have "js_add (Num (real a)) (Num (real n)) = Num (real (a + n))"
    by simp
  moreover have "a + n + sum_list ns \<le> 2 ^ 53"
    using Cons.prems by (simp add: add.assoc)
  ultimately show ?case
    using Cons.IH [of "a + n"] by (simp add: add.assoc)
qed

lemma js_sum_nat:
  "sum_list ns \<le> 2 ^ 53 \<Longrightarrow>
   js_sum (map (\<lambda>n. Num (real n)) ns) = Num (real (sum_list ns))"
  using foldl_js_add_nat [of 0 ns] by (simp add: js_sum_def)

lemma sum_list_filter_le: "sum_list (map f (filter P xs)) \<le> (sum_list (map f xs) :: nat)"
  by (induction xs) auto

lemma sum_list_insort_key:
  "sum_list (map g (insort_key k x xs)) = (g x :: nat) + sum_list (map g xs)"
  by (induction xs) auto

lemma sum_list_sort_key: "sum_list (map g (sort_key k xs)) = (sum_list (map g xs) :: nat)"
  by (induction xs) (auto simp: sum_list_insort_key)

lemma sum_list_grouped:
  "finite D \<Longrightarrow> key ` set xs \<subseteq> D \<Longrightarrow>
   (\<Sum>d\<in>D. sum_list (map w (filter (\<lambda>x. key x = d) xs))) = (sum_list (map w xs) :: nat)"
proof (induction xs)
  case Nil
  show ?case by simp
next
  case (Cons x xs)
  have "(\<Sum>d\<in>D. sum_list (map w (filter (\<lambda>x. key x = d) (x # xs)))) =
        (\<Sum>d\<in>D. (if key x = d then w x else 0) +
                 sum_list (map w (filter (\<lambda>x. key x = d) xs)))"
    by (intro sum.cong) auto
  also have "\<dots> = (\<Sum>d\<in>D. if key x = d then w x else 0) +
                   (\<Sum>d\<in>D. sum_list (map w (filter (\<lambda>x. key x = d) xs)))"
    by (rule sum.distrib)
  also have "(\<Sum>d\<in>D. if key x = d then w x else 0) = w x"
    using Cons.prems by simp
  finally show ?case
    using Cons by simp
qed

lemma real_sum_list: "sum_list (map (\<lambda>x. real (f x)) xs) = real (sum_list (map f xs))"
  by (induction xs) simp_all

lemma insort_key_map:
  "insort_key f (g x) (map g xs) = map g (insort_key (\<lambda>a. f (g a)) x xs)"
  by (induction xs) simp_all

lemma sort_key_map: "sort_key f (map g xs) = map g (sort_key (\<lambda>a. f (g a)) xs)"
  by (induction xs) (simp_all add: insort_key_map)

lemma sum_finite_clicks:
  "sum_list (map (\<lambda>r. fin (row_clicks r)) (filter (\<lambda>r. P r \<and> isFinite (row_clicks r)) rs)) =
   sum_list (map (\<lambda>r. fin (row_clicks r)) (filter P rs))"
proof (induction rs)
  case Nil
  show ?case by simp
next
  case (Cons r rs)
  then show ?case by (cases "row_clicks r") auto
qed

lemma whole_clicks_row:
  assumes "\<forall>r\<in>set (counted_rows rs). fin (row_clicks r) \<in> \<nat>"
    and "r \<in> set (valid_rows rs)"
  shows "finite_or_zero (row_clicks r) = Num (real (whole_clicks r))"
    and "fin (row_clicks r) = real (whole_clicks r)"
proof -
  show "fin (row_clicks r) = real (whole_clicks r)"
  proof (cases "isFinite (row_clicks r)")
    case True
    with assms have "fin (row_clicks r) \<in> \<nat>"
      by (simp add: counted_rows_def valid_rows_def)
    then obtain n where "fin (row_clicks r) = of_nat n"
      by (rule Nats_cases)
    then show ?thesis
      by (simp add: whole_clicks_def)
  next
    case False
    then show ?thesis
      by (cases "row_clicks r") (simp_all add: whole_clicks_def)
  qed
  then show "finite_or_zero (row_clicks r) = Num (real (whole_clicks r))"
    by (cases "row_clicks r") (simp_all add: finite_or_zero_def)
qed

lemma clicks_total_whole:
  assumes "\<forall>r\<in>set (counted_rows rs). fin (row_clicks r) \<in> \<nat>"
  shows "clicks_total rs = real (sum_list (map whole_clicks (valid_rows rs)))"
proof -
  have "clicks_total rs = sum_list (map (\<lambda>r. fin (row_clicks r)) (valid_rows rs))"
    by (simp add: clicks_total_def counted_rows_def valid_rows_def sum_finite_clicks)
  also have "\<dots> = sum_list (map (\<lambda>r. real (whole_clicks r)) (valid_rows rs))"
    using whole_clicks_row(2) [OF assms] by (intro arg_cong [where f = sum_list] map_cong) auto
  also have "\<dots> = real (sum_list (map whole_clicks (valid_rows rs)))"
    by (rule real_sum_list)
  finally show ?thesis .
qed

lemma acc_clicks_whole:
  assumes "\<forall>r\<in>set (counted_rows rs). fin (row_clicks r) \<in> \<nat>"
    and "sum_list (map whole_clicks (valid_rows rs)) \<le> 2 ^ 53"
  shows "acc_clicks (totals_of (rows_on d rs)) =
           Num (real (sum_list (map whole_clicks (rows_on d rs))))"
proof -
  have sub: "set (rows_on d rs) \<subseteq> set (valid_rows rs)"
    by (auto simp: rows_on_def)
  have eq: "map (\<lambda>r. finite_or_zero (row_clicks r)) (rows_on d rs) =
        map (\<lambda>n. Num (real n)) (map whole_clicks (rows_on d rs))"
    using whole_clicks_row(1) [OF assms(1)] sub by (auto simp: comp_def)
  have "sum_list (map whole_clicks (rows_on d rs)) \<le> 2 ^ 53"
    using sum_list_filter_le [of whole_clicks "\<lambda>r. analytics_date r = d" "valid_rows rs"]
      assms(2) by (simp add: rows_on_def)
  then have "js_sum (map (\<lambda>n. Num (real n)) (map whole_clicks (rows_on d rs))) =
        Num (real (sum_list (map whole_clicks (rows_on d rs))))"
    by (rule js_sum_nat)
  then have "js_sum (map (\<lambda>r. finite_or_zero (row_clicks r)) (rows_on d rs)) =
        Num (real (sum_list (map whole_clicks (rows_on d rs))))"
    by (simp only: eq)
  then show ?thesis
    by (simp add: totals_of_def)
qed

lemma keys_tracked:
  assumes "tracks m rs"
  shows "distinct (map fst m)" and "set (map fst m) = analytics_date ` set (valid_rows rs)"
proof -
  show d: "distinct (map fst m)"
    using assms by (simp add: tracks_def)
  have "k \<in> set (map fst m) \<longleftrightarrow> k \<in> analytics_date ` set (valid_rows rs)" for k
  proof -
    have "k \<in> set (map fst m) \<longleftrightarrow> map_of m k \<noteq> None"
      by (simp add: map_of_eq_None_iff)
    also have "\<dots> \<longleftrightarrow> rows_on k rs \<noteq> []"
      using assms by (simp add: tracks_def)
    also have "\<dots> \<longleftrightarrow> k \<in> analytics_date ` set (valid_rows rs)"
      by (auto simp: rows_on_def filter_empty_conv)
    finally show ?thesis .
  qed
  then show "set (map fst m) = analytics_date ` set (valid_rows rs)"
    by blast
qed

text \<open>
  C5, as amended. When the clicks of the counted input rows (those with a valid date
  key and finite clicks) are non-negative whole numbers whose sum is at most \<open>2 ^ 53\<close>,
  the sum of the \<open>clicks\<close> fields of the records that \<open>buildDailyAggregates\<close> returns,
  added up as JavaScript does or as real numbers, is the sum of the clicks of the
  counted rows.
\<close>

theorem clicks_conserved:
  assumes "buildDailyAggregates rows = Inr aggs"
    and "\<forall>r\<in>set (counted_rows (fst rows)). fin (row_clicks r) \<in> \<nat>"
    and "clicks_total (fst rows) \<le> 2 ^ 53"
  shows "js_sum (map clicks aggs) = Num (clicks_total (fst rows)) \<and>
         sum_list (map (\<lambda>a. fin (clicks a)) aggs) = clicks_total (fst rows)"
proof -
  let ?rs = "fst rows"
  let ?m = "foldl accumulate_row [] ?rs"
  let ?g = "\<lambda>d. sum_list (map whole_clicks (rows_on d ?rs))"
  let ?T = "sum_list (map whole_clicks (valid_rows ?rs))"
  have aggs: "aggs = sort_key date (map finalize ?m)"
    using assms(1) by (rule buildDailyAggregates_Inr)
  have total: "clicks_total ?rs = real ?T"
    using assms(2) by (rule clicks_total_whole)
  have bound: "?T \<le> 2 ^ 53"
  proof -
    have "real ?T \<le> real (2 ^ 53)"
      using assms(3) total by simp
    then show ?thesis
      by (simp only: of_nat_le_iff)
  qed
  have entry: "clicks (finalize e) = Num (real (?g (fst e)))" if "e \<in> set ?m" for e
  proof -
    obtain d acc where e: "e = (d, acc)" by (cases e)
    with that entries_tracked [OF tracks_foldl, of d acc ?rs]
    have "acc = totals_of (rows_on d ?rs)" by simp
    then show ?thesis
      using acc_clicks_whole [OF assms(2) bound, of d]
      by (simp add: e finalize_fields finite_or_zero_def)
  qed
  have cl: "map clicks aggs = map (\<lambda>n. Num (real n)) (map (\<lambda>e. ?g (fst e)) (sort_key fst ?m))"
  proof -
    have "map clicks (map finalize (sort_key fst ?m)) =
          map (\<lambda>n. Num (real n)) (map (\<lambda>e. ?g (fst e)) (sort_key fst ?m))"
      using entry by (simp add: comp_def)
    moreover have "sort_key date (map finalize ?m) = map finalize (sort_key fst ?m)"
    proof -
      have "(\<lambda>e. date (finalize e)) = fst"
        by (auto simp: fun_eq_iff finalize_fields)
      then show ?thesis
        by (simp add: sort_key_map)
    qed
    ultimately show ?thesis
      by (simp add: aggs)
  qed
  have "sum_list (map (\<lambda>e. ?g (fst e)) (sort_key fst ?m)) = sum_list (map ?g (map fst ?m))"
    by (simp add: sum_list_sort_key comp_def)
  also have "\<dots> = (\<Sum>d\<in>set (map fst ?m). ?g d)"
    using keys_tracked(1) [OF tracks_foldl, of ?rs] by (rule sum_list_distinct_conv_sum_set)
  also have "\<dots> = (\<Sum>d\<in>analytics_date ` set (valid_rows ?rs).
                      sum_list (map whole_clicks (filter (\<lambda>r. analytics_date r = d) (valid_rows ?rs))))"
    by (simp only: keys_tracked(2) [OF tracks_foldl] rows_on_def)
  also have "\<dots> = ?T"
    by (rule sum_list_grouped) simp_all
  finally have sum: "sum_list (map (\<lambda>e. ?g (fst e)) (sort_key fst ?m)) = ?T" .
  have "js_sum (map clicks aggs) = Num (real ?T)"
    unfolding cl using js_sum_nat [of "map (\<lambda>e. ?g (fst e)) (sort_key fst ?m)"] bound
    by (simp only: sum)
  moreover have "sum_list (map (\<lambda>a. fin (clicks a)) aggs) = real ?T"
  proof -
    have "map (\<lambda>a. fin (clicks a)) aggs = map fin (map clicks aggs)"
      by (simp add: comp_def)
    also have "\<dots> = map real (map (\<lambda>e. ?g (fst e)) (sort_key fst ?m))"
      unfolding cl by (simp add: comp_def)
    finally have "sum_list (map (\<lambda>a. fin (clicks a)) aggs) =
        sum_list (map real (map (\<lambda>e. ?g (fst e)) (sort_key fst ?m)))"
      by simp
    also have "\<dots> = real (sum_list (map (\<lambda>e. ?g (fst e)) (sort_key fst ?m)))"
      using real_sum_list [of "\<lambda>n. n" "map (\<lambda>e. ?g (fst e)) (sort_key fst ?m)"] by simp
    finally show ?thesis
      by (simp only: sum)
  qed
  ultimately show ?thesis
    by (simp add: total)
qed

theorem clicks_conserved_witness:
  "buildDailyAggregates (sample_rows, None) = Inr sample_aggregates \<and>
   \<not> (\<exists>r\<in>set (counted_rows sample_rows). fin (row_clicks r) \<notin> \<nat>) \<and>
   clicks_total sample_rows = 19 \<and> (19::real) \<le> 2 ^ 53 \<and>
   js_sum (map clicks sample_aggregates) = Num 19 \<and>
   sum_list (map (\<lambda>a. fin (clicks a)) sample_aggregates) = 19"
proof -
  have rows: "counted_rows sample_rows =
      [mk_row ''2024-01-02'' (Num 5) (Num 64) (Num (1/16)) (Num 3),
       mk_row ''2024-01-01'' (Num 10) (Num 1024) (Num (1/8)) (Num 2),
       mk_row ''2024-01-03'' (Num 4) (Num 0) (Num 0) (Num 0)]"
    by (simp add: counted_rows_def sample_rows_def mk_row_def invalid_date_simps)
  have whole: "\<forall>r\<in>set (counted_rows sample_rows). fin (row_clicks r) \<in> \<nat>"
    by (simp add: rows mk_row_def)
  have total: "clicks_total sample_rows = 19"
    by (simp add: clicks_total_def rows mk_row_def)
  show ?thesis
    using clicks_conserved [OF sample_result] whole total by (simp add: sample_result)
qed

text \<open>
  C5 as stated fails where a sum of clicks overflows: two rows of one date with
  \<open>2 ^ 1023\<close> clicks each have a valid date key and finite clicks, their date's total is
  \<open>Infinity\<close>, and the final \<open>isFinite\<close> guard reports 0 clicks.
\<close>

theorem clicks_conserved_counterexample:
  "buildDailyAggregates (huge_clicks_rows, None) =
     Inr [\<lparr>date = ''2024-01-01'', clicks = Num 0, impressions = Num 128,
           ctr = Num (1/8), position = Num 2\<rparr>] \<and>
   counted_rows huge_clicks_rows = huge_clicks_rows \<and>
   clicks_total huge_clicks_rows = 2 * huge \<and> 0 < huge \<and>
   js_sum [Num 0] = Num 0"
  using huge_pos
  by (simp add: buildDailyAggregates_def huge_clicks_rows_def mk_row_def accumulate_row_def
       invalid_date_simps finite_or_zero_def empty_accumulator_def finalize_def Let_def
       counted_rows_def clicks_total_def js_sum_def
       binary64_numeral binary64_fractions binary64_huge binary64_twice_huge)

section \<open>The Row Ingestor on streams that yield nothing\<close>

lemma streamParseCSV_no_records: "streamParseCSV parseFloat [] = ([], Some EmptyCSV)"
  by (simp add: streamParseCSV_def)

text \<open>
  C6. The claim asks for a fatal error whenever no row is yielded. The code raises it
  only when the parser delivered no record at all (\<open>rowCount === 0\<close>, and \<open>rowCount\<close>
  counts the skipped records too): on a stream whose only record is a repeated header,
  and on one made of a repeated header and a row without date key, it yields nothing
  and completes normally.
\<close>

theorem streamParseCSV_skipped_only:
  "streamParseCSV parseFloat [repeated_header] = ([], None) \<and>
   streamParseCSV parseFloat [repeated_header, dateless_record] = ([], None)"
  by (simp add: streamParseCSV_def repeated_header_def dateless_record_def
      missing_or_blank_def maxErrors_def)

section \<open>The Call Governor: the token bucket\<close>

lemma js_sub_self: "js_sub (Num a) (Num a) = Num 0"
  by (simp add: js_sub_def)

lemma js_mul_zero: "isFinite r \<Longrightarrow> js_mul (Num 0) r = Num 0"
  by (cases r) simp_all

lemma checkLimit_known:
  assumes "buckets L ident = Some b"
  shows "checkLimit L ident now =
     (js_ge (refilled L b now) (Num 1),
      L\<lparr>buckets := (buckets L)(ident \<mapsto>
         \<lparr>tokens = (if js_ge (refilled L b now) (Num 1)
                     then js_sub (refilled L b now) (Num 1) else refilled L b now),
          lastRefill = now\<rparr>)\<rparr>)"
  using assms by (cases b) (simp add: checkLimit_def Let_def refilled_def)

lemma checkLimit_new:
  assumes "buckets L ident = None" and "b = \<lparr>tokens = maxTokens L, lastRefill = now\<rparr>"
  shows "checkLimit L ident now =
     (js_ge (refilled L b now) (Num 1),
      L\<lparr>buckets := (buckets L)(ident \<mapsto>
         \<lparr>tokens = (if js_ge (refilled L b now) (Num 1)
                     then js_sub (refilled L b now) (Num 1) else refilled L b now),
          lastRefill = now\<rparr>)\<rparr>)"
  using assms by (simp add: checkLimit_def Let_def refilled_def)

lemma refilled_same_instant:
  assumes "maxTokens L = Num 10" and "isFinite (refillRate L)" and "k \<le> 10"
  shows "refilled L \<lparr>tokens = Num (real k), lastRefill = now\<rparr> now = Num (real k)"
proof -
  have "js_mul (js_sub (Num (of_int now)) (Num (of_int now))) (refillRate L) = Num 0"
    using assms(2) by (simp only: js_sub_self js_mul_zero)
  moreover have "js_add (Num (real k)) (Num 0) = Num (real k)"
    using binary64_nat [of k] assms(3) by simp
  moreover have "Math_min (Num 10) (Num (real k)) = Num (real k)"
    using assms(3) by (auto simp: Math_min_def js_lt_def)
  ultimately show ?thesis
    by (simp add: refilled_def assms(1))
qed

lemma spend_token:
  assumes "k \<le> 10"
  shows "js_ge (Num (real k)) (Num 1) = (0 < k)"
    and "0 < k \<Longrightarrow> js_sub (Num (real k)) (Num 1) = Num (real (k - 1))"
proof -
  show "js_ge (Num (real k)) (Num 1) = (0 < k)"
    by (auto simp: js_ge_def js_eq_def)
  assume pos: "0 < k"
  then have e: "real k + - 1 = real (k - 1)"
    by (simp add: of_nat_diff)
  have "binary64 (real (k - 1)) = Num (real (k - 1))"
    using assms by (intro binary64_nat) simp
  then show "js_sub (Num (real k)) (Num 1) = Num (real (k - 1))"
    by (simp only: js_sub_def js_neg.simps js_add.simps e)
qed

lemma checkLimit_same_instant:
  assumes "buckets L ident = Some \<lparr>tokens = Num (real k), lastRefill = now\<rparr>"
    and "maxTokens L = Num 10" and "isFinite (refillRate L)" and "k \<le> 10"
  shows "checkLimit L ident now =
     (0 < k, L\<lparr>buckets := (buckets L)
        (ident \<mapsto> \<lparr>tokens = Num (real (k - 1)), lastRefill = now\<rparr>)\<rparr>)"
proof -
  note r = refilled_same_instant [OF assms(2,3,4), of now]
  show ?thesis
    unfolding checkLimit_known [OF assms(1)] r spend_token(1) [OF assms(4)]
    using spend_token(2) [OF assms(4)] by (cases "0 < k") simp_all
qed

lemma checkLimit_fresh:
  assumes "buckets L ident = None" and "maxTokens L = Num 10" and "isFinite (refillRate L)"
  shows "checkLimit L ident now =
     (True, L\<lparr>buckets := (buckets L)(ident \<mapsto> \<lparr>tokens = Num 9, lastRefill = now\<rparr>)\<rparr>)"
proof -
  have b: "\<lparr>tokens = Num (real (10::nat)), lastRefill = now\<rparr> =
           \<lparr>tokens = maxTokens L, lastRefill = now\<rparr>"
    by (simp add: assms(2))
  have r: "refilled L \<lparr>tokens = Num (real (10::nat)), lastRefill = now\<rparr> now =
           Num (real (10::nat))"
    using assms(2,3) by (rule refilled_same_instant) simp
  show ?thesis
    unfolding checkLimit_new [OF assms(1) b] r
    using spend_token [of 10] by simp
qed

lemma checks_at_same_instant:
  assumes "buckets L ident = Some \<lparr>tokens = Num (real k), lastRefill = now\<rparr>"
    and "maxTokens L = Num 10" and "isFinite (refillRate L)" and "k \<le> 10"
  shows "checks_at n L ident now = replicate (min n k) True @ replicate (n - k) False"
  using assms
proof (induction n arbitrary: L k)
  case 0
  show ?case by simp
next
  case (Suc n)
  let ?L' = "L\<lparr>buckets := (buckets L)
     (ident \<mapsto> \<lparr>tokens = Num (real (k - 1)), lastRefill = now\<rparr>)\<rparr>"
  have step: "checkLimit L ident now = (0 < k, ?L')"
    using Suc.prems by (rule checkLimit_same_instant)
  have rest: "checks_at n ?L' ident now =
      replicate (min n (k - 1)) True @ replicate (n - (k - 1)) False"
    using Suc.prems by (intro Suc.IH) simp_all
  show ?case
  proof (cases k)
    case 0
    with step rest show ?thesis
      by (simp add: replicate_Suc [symmetric] del: replicate_Suc)
  next
    case (Suc j)
    with step rest show ?thesis
      by (simp add: Suc_diff_le)
  qed
qed

lemma checks_at_fresh:
  assumes "buckets L ident = None" and "maxTokens L = Num 10" and "isFinite (refillRate L)"
  shows "checks_at 11 L ident now = replicate 10 True @ [False]"
proof -
  let ?L' = "L\<lparr>buckets := (buckets L)(ident \<mapsto> \<lparr>tokens = Num 9, lastRefill = now\<rparr>)\<rparr>"
  have "checks_at 10 ?L' ident now = replicate (min 10 9) True @ replicate (10 - 9) False"
    using assms by (intro checks_at_same_instant) simp_all
  moreover have "checks_at 11 L ident now = True # checks_at 10 ?L' ident now"
    using checkLimit_fresh [OF assms, of now] by (simp add: eval_nat_numeral)
  ultimately show ?thesis
    by (simp add: eval_nat_numeral)
qed

lemma js_add_range: "js_add a b = Num x \<Longrightarrow> representable x"
  by (cases a; cases b) (simp_all add: binary64_range)

lemma representable_ten: "representable 10"
  using representable_int [of 10] by simp

lemma refilled_range:
  assumes "maxTokens L = Num 10" and "refilled L b now = Num x"
  shows "representable x \<and> x \<le> 10"
proof -
  let ?s = "js_add (tokens b)
          (js_mul (js_sub (Num (of_int now)) (Num (of_int (lastRefill b)))) (refillRate L))"
  from assms have m: "Math_min (Num 10) ?s = Num x"
    by (simp add: refilled_def)
  show ?thesis
  proof (cases "js_lt ?s (Num 10)")
    case True
    with m have s: "?s = Num x"
      by (simp add: Math_min_def split: if_splits)
    with True have "x < 10"
      by (simp add: js_lt_def)
    with s show ?thesis
      using js_add_range by auto
  next
    case False
    with m have "x = 10"
      by (simp add: Math_min_def split: if_splits)
    then show ?thesis
      by (simp add: representable_ten)
  qed
qed

lemma one_token:
  assumes "maxTokens L = Num 10" and "refilled L b now = Num x" and "1 \<le> x"
  shows "js_sub (refilled L b now) (Num 1) = Num (x - 1)"
proof -
  from refilled_range [OF assms(1,2)] have "representable x" "x \<le> 10"
    by simp_all
  with assms(3) have "representable (x - 1)"
    by (intro representable_pred) simp_all
  then have "binary64 (x - 1) = Num (x - 1)"
    by (rule binary64_exact)
  then show ?thesis
    by (simp add: assms(2) js_sub_def)
qed

lemma refilled_capped:
  assumes "maxTokens L = Num 10"
  shows "\<not> js_gt (refilled L b now) (Num 10)"
proof -
  have "\<not> js_gt (Math_min (Num 10) s) (Num 10)" for s
    by (cases s) (simp_all add: Math_min_def js_lt_def)
  then show ?thesis
    by (simp add: refilled_def assms)
qed

text \<open>
  C9. In a limiter of capacity 10 with a finite refill rate: a caller without a bucket
  is admitted and is left with 9 tokens, and 11 checks of such a caller at one instant
  are answered by ten admissions and then a rejection; a caller with a bucket has it
  refilled (what it held plus the elapsed time times the rate, capped at 10, in
  binary64 arithmetic), is admitted exactly when the refilled content is at least 1,
  then pays exactly one token (the subtraction is exact), and keeps the refilled
  content when rejected; the refilled content never exceeds 10; and no other caller's
  bucket changes.
\<close>

theorem token_bucket:
  assumes "maxTokens L = Num 10" and "isFinite (refillRate L)"
  shows "(buckets L ident = None \<longrightarrow>
            checkLimit L ident now =
              (True, L\<lparr>buckets := (buckets L)
                 (ident \<mapsto> \<lparr>tokens = Num 9, lastRefill = now\<rparr>)\<rparr>) \<and>
            checks_at 11 L ident now = replicate 10 True @ [False]) \<and>
         (\<forall>b. buckets L ident = Some b \<longrightarrow>
            checkLimit L ident now =
              (js_ge (refilled L b now) (Num 1),
               L\<lparr>buckets := (buckets L)(ident \<mapsto>
                 \<lparr>tokens = (if js_ge (refilled L b now) (Num 1)
                             then js_sub (refilled L b now) (Num 1) else refilled L b now),
                  lastRefill = now\<rparr>)\<rparr>) \<and>
            \<not> js_gt (refilled L b now) (Num 10) \<and>
            (\<forall>x. refilled L b now = Num x \<and> 1 \<le> x \<longrightarrow>
               js_sub (refilled L b now) (Num 1) = Num (x - 1))) \<and>
         (\<forall>other. other \<noteq> ident \<longrightarrow>
            buckets (snd (checkLimit L ident now)) other = buckets L other)"
proof (intro conjI impI allI)
  assume "buckets L ident = None"
  then show "checkLimit L ident now =
      (True, L\<lparr>buckets := (buckets L)(ident \<mapsto> \<lparr>tokens = Num 9, lastRefill = now\<rparr>)\<rparr>)"
    using assms by (rule checkLimit_fresh)
next
  assume "buckets L ident = None"
  then show "checks_at 11 L ident now = replicate 10 True @ [False]"
    using assms by (rule checks_at_fresh)
next
  fix b
  assume "buckets L ident = Some b"
  then show "checkLimit L ident now =
      (js_ge (refilled L b now) (Num 1),
       L\<lparr>buckets := (buckets L)(ident \<mapsto>
         \<lparr>tokens = (if js_ge (refilled L b now) (Num 1)
                     then js_sub (refilled L b now) (Num 1) else refilled L b now),
          lastRefill = now\<rparr>)\<rparr>)"
    by (rule checkLimit_known)
next
  fix b
  show "\<not> js_gt (refilled L b now) (Num 10)"
    using assms(1) by (rule refilled_capped)
next
  fix b x
  assume "refilled L b now = Num x \<and> 1 \<le> x"
  then show "js_sub (refilled L b now) (Num 1) = Num (x - 1)"
    using one_token [OF assms(1)] by blast
next
  fix other
  assume "other \<noteq> ident"
  then show "buckets (snd (checkLimit L ident now)) other = buckets L other"
    by (simp add: checkLimit_def Let_def)
qed


lemma insights_limiter:
  "maxTokens insightsRateLimiter = Num 10"
  "refillRate insightsRateLimiter = Num (6148914691236517 / 2 ^ 65)"
  "buckets insightsRateLimiter ident = None"
proof -
  have "binary64 (1 / 6000) = Num (6148914691236517 / 2 ^ 65)"
    using binary64_round [of "- 13" "1 / 6000" 6148914691236517]
    by (simp add: round_half_even_def)
  then show "refillRate insightsRateLimiter = Num (6148914691236517 / 2 ^ 65)"
    by (simp add: insightsRateLimiter_def new_RateLimiter_def)
qed (simp_all add: insightsRateLimiter_def new_RateLimiter_def)

lemma drained_limiter:
  "maxTokens drained_limiter = Num 10"
  "refillRate drained_limiter = Num (6148914691236517 / 2 ^ 65)"
  "buckets drained_limiter ''203.0.113.7'' = Some \<lparr>tokens = Num 0, lastRefill = 0\<rparr>"
  "buckets drained_limiter ''198.51.100.2'' = None"
  by (simp_all add: drained_limiter_def insights_limiter)

lemma refill_products:
  "js_mul (Num 3000) (Num (6148914691236517 / 2 ^ 65)) = Num (1 / 2)"
  "js_mul (Num 6000) (Num (6148914691236517 / 2 ^ 65)) = Num 1"
  "js_mul (Num 12000) (Num (6148914691236517 / 2 ^ 65)) = Num 2"
  using binary64_round [of "- 2" "3000 * (6148914691236517 / 2 ^ 65)" 9007199254740992]
    binary64_round [of "- 1" "6000 * (6148914691236517 / 2 ^ 65)" 9007199254740992]
    binary64_round [of 0 "12000 * (6148914691236517 / 2 ^ 65)" 9007199254740992]
  by (simp_all add: round_half_even_def)

lemma drained_refilled:
  "refilled drained_limiter \<lparr>tokens = Num 0, lastRefill = 0\<rparr> 3000 = Num (1 / 2)"
  "refilled drained_limiter \<lparr>tokens = Num 0, lastRefill = 0\<rparr> 6000 = Num 1"
  "refilled drained_limiter \<lparr>tokens = Num 0, lastRefill = 0\<rparr> 12000 = Num 2"
  using refill_products
  by (simp_all add: refilled_def drained_limiter js_sub_def binary64_numeral
      binary64_fractions Math_min_def js_lt_def)

theorem token_bucket_witness:
  "maxTokens insightsRateLimiter = Num 10 \<and> isFinite (refillRate insightsRateLimiter) \<and>
   buckets insightsRateLimiter ''203.0.113.7'' = None \<and>
   fst (checkLimit insightsRateLimiter ''203.0.113.7'' 0) \<and>
   checks_at 11 insightsRateLimiter ''203.0.113.7'' 0 = replicate 10 True @ [False] \<and>
   buckets drained_limiter ''203.0.113.7'' = Some \<lparr>tokens = Num 0, lastRefill = 0\<rparr> \<and>
   refilled drained_limiter \<lparr>tokens = Num 0, lastRefill = 0\<rparr> 3000 = Num (1 / 2) \<and>
   \<not> fst (checkLimit drained_limiter ''203.0.113.7'' 3000) \<and>
   refilled drained_limiter \<lparr>tokens = Num 0, lastRefill = 0\<rparr> 12000 = Num 2 \<and>
   (1::real) \<le> 2 \<and>
   checkLimit drained_limiter ''203.0.113.7'' 12000 =
     (True, drained_limiter\<lparr>buckets := (buckets drained_limiter)
        (''203.0.113.7'' \<mapsto> \<lparr>tokens = Num 1, lastRefill = 12000\<rparr>)\<rparr>) \<and>
   ''198.51.100.2'' \<noteq> ''203.0.113.7'' \<and>
   buckets (snd (checkLimit drained_limiter ''203.0.113.7'' 12000)) ''198.51.100.2'' = None"
proof -
  have f: "isFinite (refillRate insightsRateLimiter)" "isFinite (refillRate drained_limiter)"
    by (simp_all add: insights_limiter drained_limiter)
  show ?thesis
    using token_bucket [OF insights_limiter(1) f(1), of "''203.0.113.7''" 0]
      token_bucket [OF drained_limiter(1) f(2), of "''203.0.113.7''" 3000]
      token_bucket [OF drained_limiter(1) f(2), of "''203.0.113.7''" 12000]
    by (simp add: insights_limiter drained_limiter drained_refilled js_ge_def js_eq_def)
qed

text \<open>
  The refill is rounded at every check. A caller whose bucket was emptied at time 0 is
  admitted by a check at 6000 ms; checked at 2 ms and then at 6000 ms it is rejected
  both times, and its bucket then holds the binary64 value just below 1.
\<close>

lemma refill_in_two_steps:
  "fst (checkLimit drained_limiter ''203.0.113.7'' 6000) \<and>
   checkLimit drained_limiter ''203.0.113.7'' 2 =
     (False, drained_limiter\<lparr>buckets := (buckets drained_limiter)
        (''203.0.113.7'' \<mapsto> \<lparr>tokens = Num (6148914691236517 / 2 ^ 64), lastRefill = 2\<rparr>)\<rparr>) \<and>
   checkLimit (snd (checkLimit drained_limiter ''203.0.113.7'' 2)) ''203.0.113.7'' 6000 =
     (False, drained_limiter\<lparr>buckets := (buckets drained_limiter)
        (''203.0.113.7'' \<mapsto> \<lparr>tokens = Num (9007199254740991 / 2 ^ 53), lastRefill = 6000\<rparr>)\<rparr>)"
proof -
  let ?r = "6148914691236517 / 2 ^ 65 :: real"
  have two: "js_mul (Num 2) (Num ?r) = Num (6148914691236517 / 2 ^ 64)"
    using binary64_dyadic [of 6148914691236517 64 "2 * ?r"] by simp
  have rest: "js_mul (Num 5998) (Num ?r) = Num (9004196854989411 / 2 ^ 53)"
    using binary64_round [of "- 1" "5998 * ?r" 9004196854989411]
    by (simp add: round_half_even_def)
  have first: "js_add (Num 0) (Num (6148914691236517 / 2 ^ 64)) = Num (6148914691236517 / 2 ^ 64)"
    using binary64_dyadic [of 6148914691236517 64 "6148914691236517 / 2 ^ 64"] by simp
  have sum: "js_add (Num (6148914691236517 / 2 ^ 64)) (Num (9004196854989411 / 2 ^ 53)) =
             Num (9007199254740991 / 2 ^ 53)"
    using binary64_round [of "- 1" "6148914691236517 / 2 ^ 64 + 9004196854989411 / 2 ^ 53"
        9007199254740991]
    by (simp add: round_half_even_def)
  have c6000: "fst (checkLimit drained_limiter ''203.0.113.7'' 6000)"
    by (simp add: checkLimit_known [OF drained_limiter(3)] drained_refilled js_ge_def js_eq_def)
  have r2: "refilled drained_limiter \<lparr>tokens = Num 0, lastRefill = 0\<rparr> 2 =
            Num (6148914691236517 / 2 ^ 64)"
    using two first
    by (simp add: refilled_def drained_limiter js_sub_def binary64_numeral
        Math_min_def js_lt_def)
  have c2: "checkLimit drained_limiter ''203.0.113.7'' 2 =
     (False, drained_limiter\<lparr>buckets := (buckets drained_limiter)
        (''203.0.113.7'' \<mapsto> \<lparr>tokens = Num (6148914691236517 / 2 ^ 64), lastRefill = 2\<rparr>)\<rparr>)"
    using checkLimit_known [OF drained_limiter(3), of 2] r2 by (simp add: js_ge_def js_eq_def)
  let ?L = "drained_limiter\<lparr>buckets := (buckets drained_limiter)
        (''203.0.113.7'' \<mapsto> \<lparr>tokens = Num (6148914691236517 / 2 ^ 64), lastRefill = 2\<rparr>)\<rparr>"
  have b: "buckets ?L ''203.0.113.7'' = Some \<lparr>tokens = Num (6148914691236517 / 2 ^ 64), lastRefill = 2\<rparr>"
    by simp
  have r3: "refilled ?L \<lparr>tokens = Num (6148914691236517 / 2 ^ 64), lastRefill = 2\<rparr> 6000 =
            Num (9007199254740991 / 2 ^ 53)"
    using rest sum
    by (simp add: refilled_def drained_limiter js_sub_def binary64_numeral
        Math_min_def js_lt_def)
  have c3: "checkLimit ?L ''203.0.113.7'' 6000 =
     (False, drained_limiter\<lparr>buckets := (buckets drained_limiter)
        (''203.0.113.7'' \<mapsto> \<lparr>tokens = Num (9007199254740991 / 2 ^ 53), lastRefill = 6000\<rparr>)\<rparr>)"
    using checkLimit_known [OF b, of 6000] r3 by (simp add: js_ge_def js_eq_def)
  show ?thesis
    using c6000 c2 c3 by simp
qed

section \<open>Downsampling\<close>

lemma downsampleSeries_indices:
  "maxPoints < length series \<Longrightarrow>
   downsampleSeries series maxPoints =
     map (\<lambda>i. sort_key date series ! i) (final_indices (sort_key date series) maxPoints)"
  by (simp add: downsampleSeries_def final_indices_def all_sampled_def stride_sampled_def
      peak_trough_idx_def Let_def split_beta)

lemma set_Set_add: "set (Set_add i xs) = insert i (set xs)"
  by (auto simp: Set_add_def)

lemma distinct_Set_add: "distinct xs \<Longrightarrow> distinct (Set_add i xs)"
  by (simp add: Set_add_def)

lemma length_Set_add: "length (Set_add i xs) \<le> Suc (length xs)"
  by (simp add: Set_add_def)

lemma length_Set_add_mem: "i \<in> set xs \<Longrightarrow> Set_add i xs = xs"
  by (simp add: Set_add_def)

lemma distinct_sample_loop:
  "distinct acc \<Longrightarrow> distinct (sample_loop step n i acc)"
proof (induction step n i acc rule: sample_loop.induct)
  case (1 step n i sampled)
  show ?case
  proof (cases "0 < step \<and> i < n")
    case True
    with 1 show ?thesis
      by (subst sample_loop.simps) (simp add: distinct_Set_add)
  next
    case False
    with 1 show ?thesis by (subst sample_loop.simps) auto
  qed
qed

lemma set_sample_loop_bound:
  "set (sample_loop step n i acc) \<subseteq> set acc \<union> {..<n}"
proof (induction step n i acc rule: sample_loop.induct)
  case (1 step n i sampled)
  show ?case
  proof (cases "0 < step \<and> i < n")
    case True
    with 1 show ?thesis
      by (subst sample_loop.simps) (auto simp: set_Set_add)
  next
    case False
    then show ?thesis by (subst sample_loop.simps) auto
  qed
qed

lemma acc_sample_loop: "set acc \<subseteq> set (sample_loop step n i acc)"
proof (induction step n i acc rule: sample_loop.induct)
  case (1 step n i sampled)
  show ?case
  proof (cases "0 < step \<and> i < n")
    case True
    with 1 show ?thesis
      by (subst sample_loop.simps) (auto simp: set_Set_add)
  next
    case False
    then show ?thesis by (subst sample_loop.simps) auto
  qed
qed

lemma length_sample_loop:
  "0 < step \<Longrightarrow>
   length (sample_loop step n i acc) \<le> length acc + (n - i + step - 1) div step"
proof (induction step n i acc rule: sample_loop.induct)
  case (1 step n i sampled)
  show ?case
  proof (cases "i < n")
    case True
    have unfold: "length (sample_loop step n i sampled) =
          length (sample_loop step n (i + step) (Set_add i sampled))"
      using True 1(2) by (subst sample_loop.simps) simp
    have ih: "length (sample_loop step n (i + step) (Set_add i sampled)) \<le>
          length (Set_add i sampled) + (n - (i + step) + step - 1) div step"
      using 1 True by simp
    have one: "length (Set_add i sampled) \<le> Suc (length sampled)"
      by (rule length_Set_add)
    have bound: "Suc ((n - (i + step) + step - 1) div step) \<le> (n - i + step - 1) div step"
    proof (cases "i + step \<le> n")
      case True
      define a where "a = n - (i + step) + step - 1"
      have "a + step = n - i + step - 1"
        using True 1(2) by (simp add: a_def)
      moreover have "(a + step) div step = Suc (a div step)"
        using 1(2) by simp
      ultimately have "Suc (a div step) = (n - i + step - 1) div step"
        by (simp only:)
      then show ?thesis
        unfolding a_def by linarith
    next
      case False
      then have "(n - (i + step) + step - 1) div step = 0"
        using 1(2) by simp
      moreover have "step div step \<le> (n - i + step - 1) div step"
        using \<open>i < n\<close> by (intro div_le_mono) simp
      ultimately show ?thesis using 1(2) by simp
    qed
    show ?thesis
      using unfold ih one bound by linarith
  next
    case False
    then show ?thesis by (subst sample_loop.simps) simp
  qed
qed

lemma Math_ceil_div_ge2:
  assumes "0 < m" and "m < n"
  shows "2 \<le> Math_ceil_div n m"
proof -
  have "1 < real n / real m"
    using assms by simp
  then have "1 < \<lceil>real n / real m\<rceil>"
    by (simp add: less_ceiling_iff)
  then have "2 \<le> \<lceil>real n / real m\<rceil>"
    by linarith
  then show ?thesis
    unfolding Math_ceil_div_def by linarith
qed

lemma js_gt_trans: "js_gt a b \<Longrightarrow> js_gt b c \<Longrightarrow> js_gt a c"
  by (cases a; cases b; cases c) auto

lemma js_gt_irrefl: "\<not> js_gt a a"
  by (cases a) auto

lemma peak_trough_idx_upt:
  "foldl (peak_trough_idx_step s) (0, 0) [0..<k] = (p, t) \<Longrightarrow>
   (p < k \<or> p = 0) \<and> (t < k \<or> t = 0) \<and>
   (\<forall>j<k. \<not> js_gt (clicks (s ! j)) (clicks (s ! p))) \<and>
   (\<forall>j<k. \<not> js_lt (clicks (s ! j)) (clicks (s ! t)))"
proof (induction k arbitrary: p t)
  case 0
  then show ?case by simp
next
  case (Suc k)
  obtain p0 t0 where prev: "foldl (peak_trough_idx_step s) (0, 0) [0..<k] = (p0, t0)"
    by (cases "foldl (peak_trough_idx_step s) (0, 0) [0..<k]")
  note ih = Suc.IH [OF prev]
  have p: "p = (if js_gt (clicks (s ! k)) (clicks (s ! p0)) then k else p0)"
    and t: "t = (if js_lt (clicks (s ! k)) (clicks (s ! t0)) then k else t0)"
  proof -
    from Suc.prems have "peak_trough_idx_step s (foldl (peak_trough_idx_step s) (0, 0) [0..<k]) k = (p, t)"
      by simp
    then have "peak_trough_idx_step s (p0, t0) k = (p, t)"
      by (simp only: prev)
    then show "p = (if js_gt (clicks (s ! k)) (clicks (s ! p0)) then k else p0)"
      and "t = (if js_lt (clicks (s ! k)) (clicks (s ! t0)) then k else t0)"
      by (auto simp: peak_trough_idx_step_def)
  qed
  have "\<forall>j<Suc k. \<not> js_gt (clicks (s ! j)) (clicks (s ! p))"
  proof (intro allI impI)
    fix j assume "j < Suc k"
    show "\<not> js_gt (clicks (s ! j)) (clicks (s ! p))"
    proof (cases "js_gt (clicks (s ! k)) (clicks (s ! p0))")
      case True
      then have pk: "p = k" using p by simp
      show ?thesis
      proof (cases "j = k")
        case True
        then show ?thesis using pk by (simp add: js_gt_irrefl)
      next
        case False
        with \<open>j < Suc k\<close> have "j < k" by simp
        with ih have "\<not> js_gt (clicks (s ! j)) (clicks (s ! p0))" by simp
        with True show ?thesis
          using pk js_gt_trans by blast
      qed
    next
      case False
      then have "p = p0" using p by simp
      with False ih \<open>j < Suc k\<close> show ?thesis
        by (cases "j = k") auto
    qed
  qed
  moreover have "\<forall>j<Suc k. \<not> js_lt (clicks (s ! j)) (clicks (s ! t))"
  proof (intro allI impI)
    fix j assume "j < Suc k"
    show "\<not> js_lt (clicks (s ! j)) (clicks (s ! t))"
    proof (cases "js_lt (clicks (s ! k)) (clicks (s ! t0))")
      case True
      then have tk: "t = k" using t by simp
      show ?thesis
      proof (cases "j = k")
        case True
        then show ?thesis using tk by (simp add: js_lt_def js_gt_irrefl)
      next
        case False
        with \<open>j < Suc k\<close> have "j < k" by simp
        with ih have "\<not> js_lt (clicks (s ! j)) (clicks (s ! t0))" by simp
        with True show ?thesis
          using tk js_gt_trans unfolding js_lt_def by blast
      qed
    next
      case False
      then have "t = t0" using t by simp
      with False ih \<open>j < Suc k\<close> show ?thesis
        by (cases "j = k") auto
    qed
  qed
  moreover have "(p < Suc k \<or> p = 0) \<and> (t < Suc k \<or> t = 0)"
    using ih p t by auto
  ultimately show ?case by simp
qed

lemma peak_trough_idx_props:
  assumes "0 < length s" and "peak_trough_idx s = (p, t)"
  shows "p < length s \<and> t < length s \<and>
         (\<forall>a\<in>set s. \<not> js_gt (clicks a) (clicks (s ! p))) \<and>
         (\<forall>a\<in>set s. \<not> js_lt (clicks a) (clicks (s ! t)))"
  using peak_trough_idx_upt [OF assms(2) [unfolded peak_trough_idx_def]] assms(1)
  by (auto simp: in_set_conv_nth)

lemma zero_in_sample_loop:
  "0 < step \<Longrightarrow> 0 < n \<Longrightarrow> 0 \<in> set (sample_loop step n 0 [])"
  using acc_sample_loop [of "Set_add 0 []" step n "0 + step"]
  by (subst sample_loop.simps) (simp add: Set_add_def)

lemma distinct_all_sampled: "distinct (all_sampled s m)"
  by (simp add: all_sampled_def stride_sampled_def distinct_Set_add distinct_sample_loop)

lemma set_stride_sampled: "0 < n \<Longrightarrow> set (stride_sampled n m) \<subseteq> {..<n}"
  using set_sample_loop_bound [of "Math_ceil_div n m" n 0 "[]"]
  by (auto simp: stride_sampled_def set_Set_add)

lemma set_all_sampled:
  assumes "0 < length s"
  shows "set (all_sampled s m) \<subseteq> {..<length s}"
    and "{0, length s - 1, fst (peak_trough_idx s), snd (peak_trough_idx s)}
           \<subseteq> set (all_sampled s m)"
proof -
  obtain p t where pt: "peak_trough_idx s = (p, t)"
    by (cases "peak_trough_idx s")
  from peak_trough_idx_props [OF assms pt] have "p < length s" "t < length s"
    by simp_all
  then show "set (all_sampled s m) \<subseteq> {..<length s}"
    using assms set_stride_sampled [OF assms, of m]
    by (auto simp: all_sampled_def set_Set_add pt)
  show "{0, length s - 1, fst (peak_trough_idx s), snd (peak_trough_idx s)}
           \<subseteq> set (all_sampled s m)"
    by (simp add: all_sampled_def set_Set_add)
qed

lemma length_all_sampled:
  assumes "0 < m" and "m < length s"
  shows "length (all_sampled s m) \<le>
           (length s + Math_ceil_div (length s) m - 1) div Math_ceil_div (length s) m + 3"
proof -
  let ?step = "Math_ceil_div (length s) m"
  let ?st = "stride_sampled (length s) m"
  have step: "0 < ?step"
    using Math_ceil_div_ge2 [OF assms] by simp
  have st: "?st = sample_loop ?step (length s) 0 []"
    using assms by (simp add: stride_sampled_def)
  have "0 \<in> set ?st"
    unfolding st using step assms by (intro zero_in_sample_loop) auto
  then have z: "Set_add 0 ?st = ?st"
    by (rule length_Set_add_mem)
  have "length ?st \<le> (length s + ?step - 1) div ?step"
    unfolding st using length_sample_loop [OF step, of "length s" 0 "[]"] by simp
  moreover have "length (all_sampled s m) \<le> length ?st + 3"
    unfolding all_sampled_def z
    using length_Set_add [of "snd (peak_trough_idx s)"
        "Set_add (fst (peak_trough_idx s)) (Set_add (length s - 1) ?st)"]
      length_Set_add [of "fst (peak_trough_idx s)" "Set_add (length s - 1) ?st"]
      length_Set_add [of "length s - 1" ?st]
    by linarith
  ultimately show ?thesis by linarith
qed

lemma final_indices_props:
  "sorted_wrt (<) (final_indices s m)"
  "set (final_indices s m) \<subseteq> set (all_sampled s m)"
  "length (final_indices s m) \<le> m"
  "length (all_sampled s m) \<le> m \<Longrightarrow> set (final_indices s m) = set (all_sampled s m)"
proof -
  have "sorted_wrt (<) (sort (all_sampled s m))"
    by (simp add: strict_sorted_iff distinct_all_sampled)
  then show "sorted_wrt (<) (final_indices s m)"
    by (simp add: final_indices_def Let_def sorted_wrt_take)
  show "set (final_indices s m) \<subseteq> set (all_sampled s m)"
    using set_take_subset [of m "sort (all_sampled s m)"]
    by (auto simp: final_indices_def Let_def)
  show "length (final_indices s m) \<le> m"
    by (simp add: final_indices_def Let_def)
  show "length (all_sampled s m) \<le> m \<Longrightarrow> set (final_indices s m) = set (all_sampled s m)"
    by (simp add: final_indices_def Let_def)
qed


lemma subseq_map_nth:
  "sorted_wrt (<) idxs \<Longrightarrow> \<forall>i\<in>set idxs. k \<le> i \<and> i < length xs \<Longrightarrow>
   subseq (map (\<lambda>i. xs ! i) idxs) (drop k xs)"
proof (induction idxs arbitrary: k)
  case Nil
  show ?case by simp
next
  case (Cons i idxs)
  from Cons.prems have i: "k \<le> i" "i < length xs"
    by simp_all
  from Cons.prems have "\<forall>j\<in>set idxs. Suc i \<le> j \<and> j < length xs"
    by auto
  with Cons.prems have "subseq (map (\<lambda>i. xs ! i) idxs) (drop (Suc i) xs)"
    by (intro Cons.IH) simp_all
  then have "subseq (xs ! i # map (\<lambda>i. xs ! i) idxs) (xs ! i # drop (Suc i) xs)"
    by (rule subseq_Cons2)
  then have "subseq (map (\<lambda>i. xs ! i) (i # idxs)) (drop i xs)"
    using i(2) by (simp add: Cons_nth_drop_Suc)
  moreover have "drop k xs = take (i - k) (drop k xs) @ drop i xs"
    using i(1) append_take_drop_id [of "i - k" "drop k xs"] by simp
  ultimately show ?case
    using subseq_drop_many by metis
qed

lemma subseq_sorted_map:
  assumes "subseq ys xs" and "sorted (map f xs)"
  shows "sorted (map f ys)"
proof -
  from assms(1) obtain N where "ys = nths xs N"
    by (auto simp: subseq_conv_nths)
  then show ?thesis
    using sorted_nths [OF assms(2), of N] by (simp add: nths_map)
qed

lemma subseq_distinct:
  assumes "subseq ys xs" and "distinct xs"
  shows "distinct ys"
proof -
  from assms(1) obtain N where "ys = nths xs N"
    by (auto simp: subseq_conv_nths)
  with assms(2) show ?thesis by simp
qed

lemma js_gt_fin: "isFinite a \<Longrightarrow> isFinite b \<Longrightarrow> js_gt a b = (fin b < fin a)"
  by (cases a; cases b) simp_all

section \<open>The sample series\<close>

lemma length_month_days: "length (month_days y mo len) = len"
  by (simp add: month_days_def)

lemma length_four_months: "length four_months = 120"
  by (simp add: four_months_def dates_120_def length_month_days)

lemma length_one_year: "length one_year = 365"
  by (simp add: one_year_def dates_365_def length_month_days)

lemma digit_inj:
  "i < 10 \<Longrightarrow> j < 10 \<Longrightarrow> ''0123456789'' ! i = ''0123456789'' ! j \<Longrightarrow> i = j"
  by (simp add: nth_eq_iff_index_eq)

lemma two_digits_inj:
  assumes "a < 100" and "b < 100" and "two_digits a = two_digits b"
  shows "a = b"
proof -
  have "a div 10 < 10" "b div 10 < 10" "a mod 10 < 10" "b mod 10 < 10"
    using assms(1,2) by simp_all
  with assms(3) have "a div 10 = b div 10" "a mod 10 = b mod 10"
    using digit_inj [of "a div 10" "b div 10"] digit_inj [of "a mod 10" "b mod 10"]
    by (simp_all add: two_digits_def)
  then show ?thesis
    by (metis div_mult_mod_eq)
qed

lemma date_key_inj:
  assumes "date_key y mo d = date_key y mo' d'"
    and "mo < 100" "mo' < 100" "d < 100" "d' < 100"
  shows "mo = mo' \<and> d = d'"
proof -
  have len: "length (two_digits k) = 2" for k
    by (simp add: two_digits_def)
  from assms(1) have "two_digits mo = two_digits mo' \<and> two_digits d = two_digits d'"
    by (simp add: date_key_def len)
  with assms(2-) show ?thesis
    by (auto dest: two_digits_inj)
qed

lemma distinct_month_days: "len < 99 \<Longrightarrow> mo < 100 \<Longrightarrow> distinct (month_days y mo len)"
  by (auto simp: month_days_def distinct_map inj_on_def dest!: date_key_inj)

lemma disjoint_month_days:
  "mo \<noteq> mo' \<Longrightarrow> mo < 100 \<Longrightarrow> mo' < 100 \<Longrightarrow> len < 99 \<Longrightarrow> len' < 99 \<Longrightarrow>
   set (month_days y mo len) \<inter> set (month_days y mo' len') = {}"
  by (auto simp: month_days_def dest!: date_key_inj)

lemma date_four_months: "map date four_months = dates_120"
  by (simp add: four_months_def day_def comp_def split_beta
      map_snd_enumerate [simplified comp_def])

lemma distinct_dates_120: "distinct dates_120"
  by (simp add: dates_120_def distinct_month_days disjoint_month_days Int_Un_distrib)

section \<open>Anomaly detection against its specification\<close>

lemma anomaly_loop:
  "foldl (anomaly_step mean sd) acc xs =
     acc @ map (\<lambda>a. \<lparr>anomaly_date = date a, anomaly_clicks = clicks a,
                       zScore = js_div (js_sub (clicks a) mean) sd\<rparr>)
             (filter (\<lambda>a. js_gt (Math_abs (js_div (js_sub (clicks a) mean) sd)) (Num 2)) xs)"
  by (induction xs arbitrary: acc) (simp_all add: anomaly_step_def Let_def)

lemma detectAnomalies_short: "length series < 3 \<Longrightarrow> detectAnomalies series = []"
  by (simp add: detectAnomalies_def)

lemma detectAnomalies_level:
  "js_eq (computed_stddev series) (Num 0) \<Longrightarrow> detectAnomalies series = []"
  by (simp add: detectAnomalies_def Let_def computed_stddev_def computed_mean_def comp_def)

lemma detectAnomalies_flags:
  "\<not> length series < 3 \<Longrightarrow> \<not> js_eq (computed_stddev series) (Num 0) \<Longrightarrow>
   detectAnomalies series = flagged series"
  by (simp add: detectAnomalies_def Let_def anomaly_loop flagged_def computed_z_score_def
      computed_stddev_def computed_mean_def comp_def)

text \<open>
  A series of equal whole numbers of clicks has mean that number, and its computed
  standard deviation is exactly 0.
\<close>

lemma constant_series:
  assumes "\<forall>a\<in>set series. clicks a = Num (real c)" and "length series * c \<le> 2 ^ 53"
    and "0 < length series"
  shows "computed_stddev series = Num 0"
proof -
  let ?n = "length series"
  have cl: "map clicks series = map (\<lambda>n. Num (real n)) (map (\<lambda>a. c) series)"
    using assms(1) by (simp add: comp_def)
  have tot: "sum_list (map (\<lambda>a. c) series) = ?n * c"
    by (simp add: sum_list_triv)
  have "js_sum (map (\<lambda>n. Num (real n)) (map (\<lambda>a. c) series)) =
        Num (real (sum_list (map (\<lambda>a. c) series)))"
    by (rule js_sum_nat) (simp only: tot assms(2))
  then have sum: "js_sum (map clicks series) = Num (real (?n * c))"
    by (simp only: cl tot)
  have "1 * c \<le> ?n * c"
    using assms(3) by (intro mult_le_mono1) linarith
  then have "c \<le> ?n * c"
    by simp
  then have c: "c \<le> 2 ^ 53"
    using assms(2) by linarith
  have "real (?n * c) / real ?n = real c"
    using assms(3) by simp
  then have mean: "computed_mean series = Num (real c)"
    using assms(3) binary64_nat [OF c] by (simp add: computed_mean_def sum)
  have sq: "map (\<lambda>a. Math_pow2 (js_sub (clicks a) (Num (real c)))) series =
            map (\<lambda>n. Num (real n)) (map (\<lambda>a. 0) series)"
    using assms(1) by (simp add: comp_def Math_pow2_def js_sub_def)
  have "js_sum (map (\<lambda>n. Num (real n)) (map (\<lambda>a. 0) series)) =
        Num (real (sum_list (map (\<lambda>a. 0) series)))"
    by (rule js_sum_nat) simp
  then have "js_sum (map (\<lambda>a. Math_pow2 (js_sub (clicks a) (Num (real c)))) series) = Num 0"
    by (simp only: sq) simp
  then show ?thesis
    using assms(3) by (simp add: computed_stddev_def mean)
qed

text \<open>
  C7, as amended. \<open>detectAnomalies\<close> returns no anomaly for a series of fewer than 3
  points and for a series whose computed standard deviation is exactly 0; for every
  other series it returns, in order, exactly the points whose computed z-score exceeds
  2 in absolute value, each with its z-score. The mean, the squared deviations, the
  variance, its square root and the z-scores are computed in binary64 arithmetic, each
  operation rounded. A series whose clicks are all the same whole number, with a sum of
  at most \<open>2 ^ 53\<close>, has no anomaly.
\<close>

theorem detectAnomalies_spec:
  "detectAnomalies series =
     (if length series < 3 \<or> js_eq (computed_stddev series) (Num 0) then []
      else flagged series) \<and>
   ((\<forall>a\<in>set series. clicks a = Num (real c)) \<and> length series * c \<le> 2 ^ 53 \<longrightarrow>
      detectAnomalies series = [])"
proof (intro conjI impI)
  show "detectAnomalies series =
     (if length series < 3 \<or> js_eq (computed_stddev series) (Num 0) then []
      else flagged series)"
    using detectAnomalies_short [of series] detectAnomalies_level [of series]
      detectAnomalies_flags [of series]
    by auto
next
  assume a: "(\<forall>a\<in>set series. clicks a = Num (real c)) \<and> length series * c \<le> 2 ^ 53"
  show "detectAnomalies series = []"
  proof (cases "length series < 3")
    case True
    then show ?thesis by (rule detectAnomalies_short)
  next
    case False
    then have "0 < length series" by linarith
    with a have "computed_stddev series = Num 0"
      using constant_series [of series c] by blast
    then show ?thesis
      by (simp add: detectAnomalies_level js_eq_def)
  qed
qed

text \<open>The binary64 operations that anomaly detection performs on \<open>level_days\<close>.\<close>

lemma level_mean: "binary64 (609 / 5) = Num (8570913040839475 / 2 ^ 46)"
  using binary64_round [of 6 "609 / 5" 8570913040839475]
  by (simp add: round_half_even_def)

lemma level_diffs:
  "binary64 (100 - 8570913040839475 / 2 ^ 46) = Num (- (1534038623073075 / 2 ^ 46))"
  "binary64 (209 - 8570913040839475 / 2 ^ 46) = Num (6136154492292301 / 2 ^ 46)"
  using binary64_dyadic [of "- 1534038623073075" 46 "100 - 8570913040839475 / 2 ^ 46"]
    binary64_dyadic [of 6136154492292301 46 "209 - 8570913040839475 / 2 ^ 46"]
  by simp_all

lemma level_squares:
  "binary64 ((1534038623073075 / 2 ^ 46) * (1534038623073075 / 2 ^ 46)) =
     Num (4180255247874129 / 2 ^ 43)"
  "binary64 ((6136154492292301 / 2 ^ 46) * (6136154492292301 / 2 ^ 46)) =
     Num (2090127623937065 / 2 ^ 38)"
  using binary64_round [of 8 "(1534038623073075 / 2 ^ 46) * (1534038623073075 / 2 ^ 46)"
      8360510495748258]
    binary64_round [of 12 "(6136154492292301 / 2 ^ 46) * (6136154492292301 / 2 ^ 46)"
      8360510495748260]
  by (simp_all add: round_half_even_def)

lemma level_sums:
  "binary64 (4180255247874129 / 2 ^ 43) = Num (4180255247874129 / 2 ^ 43)"
  "binary64 (4180255247874129 / 2 ^ 43 + 4180255247874129 / 2 ^ 43) =
     Num (4180255247874129 / 2 ^ 42)"
  "binary64 (4180255247874129 / 2 ^ 42 + 4180255247874129 / 2 ^ 43) =
     Num (3135191435905597 / 2 ^ 41)"
  "binary64 (3135191435905597 / 2 ^ 41 + 4180255247874129 / 2 ^ 43) =
     Num (4180255247874129 / 2 ^ 41)"
  "binary64 (4180255247874129 / 2 ^ 41 + 2090127623937065 / 2 ^ 38) =
     Num (2612659529921331 / 2 ^ 38)"
  using binary64_dyadic [of 4180255247874129 43 "4180255247874129 / 2 ^ 43"]
    binary64_dyadic [of 4180255247874129 42
      "4180255247874129 / 2 ^ 43 + 4180255247874129 / 2 ^ 43"]
    binary64_round [of 10 "4180255247874129 / 2 ^ 42 + 4180255247874129 / 2 ^ 43"
      6270382871811194]
    binary64_round [of 10 "3135191435905597 / 2 ^ 41 + 4180255247874129 / 2 ^ 43"
      8360510495748258]
    binary64_round [of 13 "4180255247874129 / 2 ^ 41 + 2090127623937065 / 2 ^ 38"
      5225319059842662]
  by (simp_all add: round_half_even_def)

lemma level_variance:
  "binary64 (2612659529921331 / 2 ^ 38 / 5) = Num (8360510495748259 / 2 ^ 42)"
  using binary64_round [of 10 "2612659529921331 / 2 ^ 38 / 5" 8360510495748259]
  by (simp add: round_half_even_def)

lemma level_stddev:
  "binary64 (sqrt (8360510495748259 / 2 ^ 42)) = Num (1534038623073075 / 2 ^ 45)"
  using binary64_sqrt_round [of 6136154492292300 5 "8360510495748259 / 2 ^ 42"]
  by (simp add: power2_eq_square)

lemma level_z_scores:
  "binary64 (- (1534038623073075 / 2 ^ 46) / (1534038623073075 / 2 ^ 45)) = Num (- (1 / 2))"
  "binary64 (6136154492292301 / 2 ^ 46 / (1534038623073075 / 2 ^ 45)) =
     Num (4503599627370497 / 2 ^ 51)"
  using binary64_dyadic [of "- 1" 1 "- (1534038623073075 / 2 ^ 46) / (1534038623073075 / 2 ^ 45)"]
    binary64_round [of 1 "6136154492292301 / 2 ^ 46 / (1534038623073075 / 2 ^ 45)"
      4503599627370497]
  by (simp_all add: round_half_even_def)

lemma level_computed:
  "computed_mean level_days = Num (8570913040839475 / 2 ^ 46)"
  "computed_stddev level_days = Num (1534038623073075 / 2 ^ 45)"
proof -
  show m: "computed_mean level_days = Num (8570913040839475 / 2 ^ 46)"
    using level_mean
    by (simp add: computed_mean_def level_days_def day_def js_sum_def binary64_numeral)
  show "computed_stddev level_days = Num (1534038623073075 / 2 ^ 45)"
    unfolding computed_stddev_def m
    using level_diffs level_squares level_sums level_variance level_stddev
    by (simp add: level_days_def day_def js_sum_def js_sub_def Math_pow2_def)
qed

lemma level_flagged:
  "flagged level_days =
     [\<lparr>anomaly_date = ''2024-03-05'', anomaly_clicks = Num 209,
       zScore = Num (4503599627370497 / 2 ^ 51)\<rparr>]"
  unfolding flagged_def computed_z_score_def level_computed
  using level_diffs level_z_scores
  by (simp add: level_days_def day_def js_sub_def)


lemma level_anomalies:
  "detectAnomalies level_days =
     [\<lparr>anomaly_date = ''2024-03-05'', anomaly_clicks = Num 209,
       zScore = Num (4503599627370497 / 2 ^ 51)\<rparr>]"
proof -
  have "\<not> length level_days < 3"
    by (simp add: level_days_def)
  moreover have "\<not> js_eq (computed_stddev level_days) (Num 0)"
    by (simp add: level_computed js_eq_def)
  ultimately have "detectAnomalies level_days = flagged level_days"
    by (rule detectAnomalies_flags)
  then show ?thesis
    by (simp only: level_flagged)
qed

lemma level_exact:
  "clicks_mean level_days = 609 / 5"
  "clicks_stddev level_days = 218 / 5"
  "z_score level_days (day ''2024-03-05'' 209) = 2"
proof -
  show m: "clicks_mean level_days = 609 / 5"
    by (simp add: clicks_mean_def level_days_def day_def)
  have "sqrt ((218 / 5)\<^sup>2) = 218 / 5"
    by simp
  moreover have "sum_list (map (\<lambda>a. (fin (clicks a) - 609 / 5)\<^sup>2) level_days) /
        real (length level_days) = (218 / 5)\<^sup>2"
    by (simp add: level_days_def day_def power2_eq_square)
  ultimately show sd: "clicks_stddev level_days = 218 / 5"
    by (simp only: clicks_stddev_def m)
  show "z_score level_days (day ''2024-03-05'' 209) = 2"
    by (simp add: z_score_def m sd day_def)
qed

theorem detectAnomalies_spec_witness:
  "\<not> length level_days < 3 \<and>
   computed_stddev level_days = Num (1534038623073075 / 2 ^ 45) \<and>
   \<not> js_eq (Num (1534038623073075 / 2 ^ 45)) (Num 0) \<and>
   computed_z_score level_days (day ''2024-03-05'' 209) = Num (4503599627370497 / 2 ^ 51) \<and>
   js_gt (Math_abs (Num (4503599627370497 / 2 ^ 51))) (Num 2) \<and>
   detectAnomalies level_days =
     [\<lparr>anomaly_date = ''2024-03-05'', anomaly_clicks = Num 209,
       zScore = Num (4503599627370497 / 2 ^ 51)\<rparr>] \<and>
   \<not> (\<exists>a\<in>set flat_days. clicks a \<noteq> Num (real (100::nat))) \<and>
   length flat_days * 100 \<le> 2 ^ 53 \<and>
   detectAnomalies flat_days = []"
proof -
  have z: "computed_z_score level_days (day ''2024-03-05'' 209) =
           Num (4503599627370497 / 2 ^ 51)"
    unfolding computed_z_score_def level_computed
    using level_diffs level_z_scores by (simp add: day_def js_sub_def)
  have l: "\<not> length level_days < 3"
    by (simp add: level_days_def)
  have nz: "\<not> js_eq (Num (1534038623073075 / 2 ^ 45)) (Num 0)"
    by (simp add: js_eq_def)
  have gt: "js_gt (Math_abs (Num (4503599627370497 / 2 ^ 51))) (Num 2)"
    by simp
  have level: "detectAnomalies level_days =
     [\<lparr>anomaly_date = ''2024-03-05'', anomaly_clicks = Num 209,
       zScore = Num (4503599627370497 / 2 ^ 51)\<rparr>]"
    using detectAnomalies_spec [of level_days 0] l nz
    by (simp only: level_computed level_flagged if_False simp_thms)
  have f: "\<forall>a\<in>set flat_days. clicks a = Num (real (100::nat))"
    "length flat_days * 100 \<le> 2 ^ 53"
    by (simp_all add: flat_days_def day_def)
  have flat: "detectAnomalies flat_days = []"
    using detectAnomalies_spec [of flat_days 100] f by blast
  show ?thesis
    using z l nz gt level f flat level_computed(2) by blast
qed

text \<open>
  C7 as stated fails where rounding carries a z-score across the threshold: of four
  days with 100 clicks and a fifth with 209, the fifth has a z-score of exactly 2,
  which does not exceed 2; the code computes a standard deviation just below 43.6 and a
  z-score just above 2, and flags the day.
\<close>

theorem detectAnomalies_spec_counterexample:
  "clicks_mean level_days = 609 / 5 \<and>
   clicks_stddev level_days = 218 / 5 \<and>
   z_score level_days (day ''2024-03-05'' 209) = 2 \<and>
   day ''2024-03-05'' 209 \<in> set level_days \<and>
   map anomaly_date (detectAnomalies level_days) = [''2024-03-05'']"
  by (simp add: level_exact level_anomalies) (simp add: level_days_def)

section \<open>The five-day example\<close>

lemma tenth_times_hundred:
  "binary64 (1 / 10) = Num (7205759403792794 / 2 ^ 56)"
  "binary64 (7205759403792794 / 2 ^ 56 * 100) = Num 10"
  using binary64_round [of "- 4" "1 / 10" 7205759403792794]
    binary64_round [of 3 "7205759403792794 / 2 ^ 56 * 100" 5629499534213120]
  by (simp_all add: round_half_even_def)

lemma five_trends:
  "calculateTrends five_days =
     \<lparr>clicksChange = Num 10, impressionsChange = Num 0,
      peakDay = \<lparr>day_date = ''2024-03-04'', day_clicks = Num 400\<rparr>,
      troughDay = \<lparr>day_date = ''2024-03-03'', day_clicks = Num 90\<rparr>,
      biggestSpike = \<lparr>change_date = ''2024-03-04'', change = Num 310\<rparr>,
      biggestDrop = \<lparr>change_date = ''2024-03-05'', change = Num (- 290)\<rparr>\<rparr>"
  using tenth_times_hundred
  by (simp add: calculateTrends_def five_days_def day_def peak_trough_step_def
      spike_drop_step_def js_lt_def js_sub_def upt_rec binary64_numeral binary64_neg_numeral)

lemma five_mean: "clicks_mean five_days = 164"
  by (simp add: clicks_mean_def five_days_def day_def)

lemma five_sd: "clicks_stddev five_days = sqrt 14024"
  by (simp add: clicks_stddev_def five_mean) (simp add: five_days_def day_def)

lemma sqrt_14024: "118 \<le> sqrt 14024" "sqrt 14024 \<le> 119"
  by (rule real_le_rsqrt, simp) (rule real_le_lsqrt, simp_all)

lemma small_z:
  assumes "118 \<le> y" and "\<bar>d\<bar> \<le> 236"
  shows "\<not> js_gt (Math_abs (js_div (Num d) (Num y))) (Num 2)"
proof -
  have y: "0 < y" using assms(1) by linarith
  have "- 2 \<le> d / y" "d / y \<le> 2"
    using assms y by (simp_all add: pos_le_divide_eq pos_divide_le_eq)
  moreover have "representable (- 2)" "representable 2"
    using representable_int [of "- 2"] representable_int [of 2] by simp_all
  ultimately obtain w where "binary64 (d / y) = Num w" "- 2 \<le> w" "w \<le> 2"
    using binary64_between [of "- 2" "d / y" 2] by blast
  then show ?thesis
    using y by simp
qed

lemma five_no_anomaly: "detectAnomalies five_days = []"
proof -
  obtain y where y: "binary64 (sqrt 14024) = Num y" "118 \<le> y" "y \<le> 119"
    using binary64_between [OF sqrt_14024] representable_int [of 118] representable_int [of 119]
    by auto
  have m: "computed_mean five_days = Num 164"
    by (simp add: computed_mean_def five_days_def day_def js_sum_def binary64_numeral)
  have sd: "computed_stddev five_days = Num y"
    unfolding computed_stddev_def m using y(1)
    by (simp add: five_days_def day_def js_sum_def js_sub_def Math_pow2_def
        binary64_numeral binary64_neg_numeral)
  have d: "js_sub (Num 100) (Num 164) = Num (- 64)" "js_sub (Num 120) (Num 164) = Num (- 44)"
    "js_sub (Num 90) (Num 164) = Num (- 74)" "js_sub (Num 400) (Num 164) = Num 236"
    "js_sub (Num 110) (Num 164) = Num (- 54)"
    by (simp_all add: js_sub_def binary64_numeral binary64_neg_numeral)
  have "flagged five_days = []"
    unfolding flagged_def computed_z_score_def m sd
    by (simp add: five_days_def day_def d small_z [OF y(2)] del: js_div.simps)
  moreover have "\<not> length five_days < 3"
    by (simp add: five_days_def)
  moreover have "\<not> js_eq (computed_stddev five_days) (Num 0)"
    using y(2) by (simp add: sd js_eq_def)
  ultimately show ?thesis
    by (simp add: detectAnomalies_flags)
qed

text \<open>
  C4, as amended. On the five days with clicks 100, 120, 90, 400, 110 the Range
  Summarizer reports the peak on day 4 with 400 clicks, the trough on day 3 with 90
  clicks, the biggest single-step increase of +310 ending on day 4 and the biggest
  single-step decrease of -290 ending on day 5. The mean is 164 and the population
  standard deviation is the square root of 14024 (about 118.4), so that the z-score of
  day 4 is 236 over that root, below 2, and anomaly detection flags no day.
\<close>

theorem five_day_example:
  "calculateTrends five_days =
     \<lparr>clicksChange = Num 10, impressionsChange = Num 0,
      peakDay = \<lparr>day_date = ''2024-03-04'', day_clicks = Num 400\<rparr>,
      troughDay = \<lparr>day_date = ''2024-03-03'', day_clicks = Num 90\<rparr>,
      biggestSpike = \<lparr>change_date = ''2024-03-04'', change = Num 310\<rparr>,
      biggestDrop = \<lparr>change_date = ''2024-03-05'', change = Num (- 290)\<rparr>\<rparr> \<and>
   clicks_mean five_days = 164 \<and>
   clicks_stddev five_days = sqrt 14024 \<and>
   z_score five_days (day ''2024-03-04'' 400) = 236 / sqrt 14024 \<and>
   236 / sqrt 14024 < 2 \<and>
   detectAnomalies five_days = []"
proof (intro conjI)
  show "calculateTrends five_days =
     \<lparr>clicksChange = Num 10, impressionsChange = Num 0,
      peakDay = \<lparr>day_date = ''2024-03-04'', day_clicks = Num 400\<rparr>,
      troughDay = \<lparr>day_date = ''2024-03-03'', day_clicks = Num 90\<rparr>,
      biggestSpike = \<lparr>change_date = ''2024-03-04'', change = Num 310\<rparr>,
      biggestDrop = \<lparr>change_date = ''2024-03-05'', change = Num (- 290)\<rparr>\<rparr>"
    by (rule five_trends)
  show "clicks_mean five_days = 164"
    by (rule five_mean)
  show "clicks_stddev five_days = sqrt 14024"
    by (rule five_sd)
  show "z_score five_days (day ''2024-03-04'' 400) = 236 / sqrt 14024"
    by (simp add: z_score_def five_mean five_sd day_def)
  show "236 / sqrt 14024 < 2"
  proof -
    have "118 < sqrt 14024"
      by (rule real_less_rsqrt) simp
    then show ?thesis
      by (simp add: pos_divide_less_eq)
  qed
  show "detectAnomalies five_days = []"
    by (rule five_no_anomaly)
qed

text \<open>
  C4 as stated fails: the anomaly list of the five days is not the one entry for day 4.
\<close>

theorem five_day_example_counterexample:
  "map anomaly_date (detectAnomalies five_days) \<noteq> [''2024-03-04'']"
  by (simp add: five_no_anomaly)

section \<open>What downsampling keeps\<close>

text \<open>
  C10. For a series with more than \<open>maxPoints\<close> entries, the output of
  \<open>downsampleSeries\<close> is read off the series sorted by date key at strictly ascending
  indices: it is a subsequence of the sorted series, it is sorted by date, and no entry
  is selected twice (so the output of a series without duplicates has none).
\<close>

theorem downsample_subsequence:
  assumes "maxPoints < length series"
  shows "(\<exists>idxs. sorted_wrt (<) idxs \<and> (\<forall>i\<in>set idxs. i < length series) \<and>
            downsampleSeries series maxPoints = map (\<lambda>i. sort_key date series ! i) idxs) \<and>
         subseq (downsampleSeries series maxPoints) (sort_key date series) \<and>
         sorted (map date (downsampleSeries series maxPoints)) \<and>
         (distinct series \<longrightarrow> distinct (downsampleSeries series maxPoints))"
proof -
  let ?s = "sort_key date series"
  let ?idxs = "final_indices ?s maxPoints"
  have out: "downsampleSeries series maxPoints = map (\<lambda>i. ?s ! i) ?idxs"
    using assms by (rule downsampleSeries_indices)
  have pos: "0 < length ?s"
    using assms by (cases series) simp_all
  have strict: "sorted_wrt (<) ?idxs"
    by (rule final_indices_props)
  have range: "\<forall>i\<in>set ?idxs. i < length series"
    using final_indices_props(2) [of ?s maxPoints] set_all_sampled(1) [OF pos, of maxPoints]
    by auto
  have "subseq (map (\<lambda>i. ?s ! i) ?idxs) (drop 0 ?s)"
    using strict range by (intro subseq_map_nth) simp_all
  then have sub: "subseq (downsampleSeries series maxPoints) ?s"
    by (simp add: out)
  have srt: "sorted (map date (downsampleSeries series maxPoints))"
    using sub by (rule subseq_sorted_map) simp
  have "distinct series \<longrightarrow> distinct (downsampleSeries series maxPoints)"
    using subseq_distinct [OF sub] by simp
  with out strict range sub srt show ?thesis
    by blast
qed

theorem downsample_subsequence_witness:
  "3 < length five_days \<and> distinct five_days \<and>
   subseq (downsampleSeries five_days 3) (sort_key date five_days) \<and>
   sorted (map date (downsampleSeries five_days 3)) \<and>
   distinct (downsampleSeries five_days 3)"
proof -
  have "3 < length five_days" and "distinct five_days"
    by (simp_all add: five_days_def day_def)
  then show ?thesis
    using downsample_subsequence [of 3 five_days] by blast
qed

text \<open>
  C8. Downsampling a series of 365 points to at most 60 returns at most 60 points, among
  them the first and the last record of the series sorted by date key, a record that no
  record exceeds in clicks and a record that exceeds no record in clicks (for finite
  clicks: a record of maximal and a record of minimal clicks).
\<close>

theorem downsample_year:
  assumes "length series = 365"
  shows "length (downsampleSeries series 60) \<le> 60 \<and>
         sort_key date series ! 0 \<in> set (downsampleSeries series 60) \<and>
         sort_key date series ! 364 \<in> set (downsampleSeries series 60) \<and>
         (\<exists>peak\<in>set (downsampleSeries series 60).
            \<forall>a\<in>set series. \<not> js_gt (clicks a) (clicks peak)) \<and>
         (\<exists>trough\<in>set (downsampleSeries series 60).
            \<forall>a\<in>set series. \<not> js_lt (clicks a) (clicks trough)) \<and>
         ((\<forall>a\<in>set series. isFinite (clicks a)) \<longrightarrow>
          (\<exists>peak\<in>set (downsampleSeries series 60).
             \<forall>a\<in>set series. fin (clicks a) \<le> fin (clicks peak)) \<and>
          (\<exists>trough\<in>set (downsampleSeries series 60).
             \<forall>a\<in>set series. fin (clicks trough) \<le> fin (clicks a)))"
proof -
  let ?s = "sort_key date series"
  let ?idxs = "final_indices ?s 60"
  have len: "length ?s = 365"
    using assms by simp
  have out: "downsampleSeries series 60 = map (\<lambda>i. ?s ! i) ?idxs"
    using assms by (intro downsampleSeries_indices) simp
  have step: "Math_ceil_div 365 60 = 7"
    by (simp add: Math_ceil_div_def)
  have "length (all_sampled ?s 60) \<le> 60"
    using length_all_sampled [of 60 ?s] by (simp add: assms step)
  then have all: "set ?idxs = set (all_sampled ?s 60)"
    by (rule final_indices_props)
  obtain p t where pt: "peak_trough_idx ?s = (p, t)"
    by (cases "peak_trough_idx ?s")
  have "{0, 364, p, t} \<subseteq> set ?idxs"
    using set_all_sampled(2) [of ?s 60] assms by (auto simp: all pt)
  then have mem: "?s ! 0 \<in> set (downsampleSeries series 60)"
    "?s ! 364 \<in> set (downsampleSeries series 60)"
    "?s ! p \<in> set (downsampleSeries series 60)"
    "?s ! t \<in> set (downsampleSeries series 60)"
    by (auto simp: out)
  have ext: "\<forall>a\<in>set series. \<not> js_gt (clicks a) (clicks (?s ! p))"
    "\<forall>a\<in>set series. \<not> js_lt (clicks a) (clicks (?s ! t))"
    using peak_trough_idx_props [OF _ pt] assms by auto
  have bound: "length (downsampleSeries series 60) \<le> 60"
    by (simp add: out final_indices_props)
  have in_series: "?s ! p \<in> set series" "?s ! t \<in> set series"
    using peak_trough_idx_props [OF _ pt] assms nth_mem [of p ?s] nth_mem [of t ?s]
    by auto
  have "\<forall>a\<in>set series. fin (clicks a) \<le> fin (clicks (?s ! p))"
    and "\<forall>a\<in>set series. fin (clicks (?s ! t)) \<le> fin (clicks a)"
    if f: "\<forall>a\<in>set series. isFinite (clicks a)"
    using ext in_series f by (auto simp: js_gt_fin js_lt_def not_less)
  with bound mem ext show ?thesis
    by blast
qed

theorem downsample_year_witness:
  "length one_year = 365 \<and> \<not> (\<exists>a\<in>set one_year. \<not> isFinite (clicks a)) \<and>
   length (downsampleSeries one_year 60) \<le> 60 \<and>
   sort_key date one_year ! 0 \<in> set (downsampleSeries one_year 60) \<and>
   sort_key date one_year ! 364 \<in> set (downsampleSeries one_year 60) \<and>
   (\<exists>peak\<in>set (downsampleSeries one_year 60).
      \<forall>a\<in>set one_year. fin (clicks a) \<le> fin (clicks peak)) \<and>
   (\<exists>trough\<in>set (downsampleSeries one_year 60).
      \<forall>a\<in>set one_year. fin (clicks trough) \<le> fin (clicks a))"
proof -
  have "\<forall>a\<in>set one_year. isFinite (clicks a)"
    by (auto simp: one_year_def day_def)
  then show ?thesis
    using downsample_year [OF length_one_year] length_one_year by blast
qed

section \<open>What the final truncation drops\<close>

text \<open>The payload's series is the input downsampled to at most 60 points.\<close>

lemma buildInsightsPayload_series:
  "payload_series (buildInsightsPayload series startDate endDate) = downsampleSeries series 60"
  by (simp add: buildInsightsPayload_def)

lemma sample_loop_contains:
  "0 < step \<Longrightarrow> i + k * step < n \<Longrightarrow> i + k * step \<in> set (sample_loop step n i acc)"
proof (induction k arbitrary: i acc)
  case 0
  then have "sample_loop step n i acc = sample_loop step n (i + step) (Set_add i acc)"
    by (subst sample_loop.simps) simp
  moreover have "i \<in> set (sample_loop step n (i + step) (Set_add i acc))"
    using acc_sample_loop [of "Set_add i acc" step n "i + step"] by (auto simp: set_Set_add)
  ultimately show ?case by simp
next
  case (Suc k)
  then have i: "i < n" by simp
  with Suc.prems have "sample_loop step n i acc = sample_loop step n (i + step) (Set_add i acc)"
    by (subst sample_loop.simps) simp
  moreover have "(i + step) + k * step \<in> set (sample_loop step n (i + step) (Set_add i acc))"
    using Suc.prems by (intro Suc.IH) (simp_all add: add.assoc)
  ultimately show ?case by (simp add: add.assoc)
qed

lemma take_below_last:
  assumes "sorted_wrt (<) xs" and "m < length xs" and "\<forall>x\<in>set xs. x \<le> (b::nat)"
  shows "\<forall>x\<in>set (take m xs). x < b"
proof
  fix x assume "x \<in> set (take m xs)"
  then obtain j where j: "j < m" "j < length xs" "x = xs ! j"
    by (auto simp: in_set_conv_nth)
  have "xs ! j < xs ! m"
    using assms(1,2) j(1) by (simp add: sorted_wrt_nth_less)
  moreover have "xs ! m \<le> b"
    using assms(2,3) by simp
  ultimately show "x < b" using j(3) by simp
qed

lemma truncation_drops_last:
  assumes "maxPoints < length (all_sampled s maxPoints)" and "0 < length s"
  shows "\<forall>i\<in>set (final_indices s maxPoints). i < length s - 1"
proof -
  let ?xs = "sort (all_sampled s maxPoints)"
  have fi: "final_indices s maxPoints = take maxPoints ?xs"
    using assms(1) by (simp add: final_indices_def Let_def)
  have "sorted_wrt (<) ?xs"
    by (simp add: strict_sorted_iff distinct_all_sampled)
  moreover have "maxPoints < length ?xs"
    using assms(1) by simp
  moreover have "\<forall>x\<in>set ?xs. x \<le> length s - 1"
    using set_all_sampled(1) [OF assms(2), of maxPoints] by auto
  ultimately show ?thesis
    unfolding fi by (rule take_below_last)
qed

lemma all_sampled_120:
  assumes "length s = 120"
  shows "60 < length (all_sampled s 60)"
proof -
  have step: "Math_ceil_div 120 60 = 2"
    by (simp add: Math_ceil_div_def)
  have evens: "2 * k \<in> set (all_sampled s 60)" if "k < 60" for k
  proof -
    have "0 + k * 2 \<in> set (sample_loop 2 120 0 [])"
      using that by (intro sample_loop_contains) simp_all
    then show ?thesis
      by (simp add: all_sampled_def stride_sampled_def set_Set_add assms step mult.commute)
  qed
  have last: "119 \<in> set (all_sampled s 60)"
    by (simp add: all_sampled_def set_Set_add assms)
  have "insert 119 ((\<lambda>k. 2 * k) ` {..<60}) \<subseteq> set (all_sampled s 60)"
    using evens last by auto
  then have "card (insert 119 ((\<lambda>k. 2 * k) ` {..<60::nat})) \<le> card (set (all_sampled s 60))"
    by (intro card_mono) simp_all
  moreover have "card (insert 119 ((\<lambda>k. 2 * k) ` {..<60::nat})) = 61"
  proof -
    have "(119::nat) \<notin> (\<lambda>k. 2 * k) ` {..<60}"
      by (auto simp: image_iff)
    moreover have "card ((\<lambda>k. 2 * k) ` {..<60::nat}) = 60"
      by (simp add: card_image inj_on_def)
    ultimately show ?thesis by simp
  qed
  moreover have "card (set (all_sampled s 60)) = length (all_sampled s 60)"
    by (simp add: distinct_card distinct_all_sampled)
  ultimately show ?thesis by simp
qed

text \<open>
  C2. The claim asks that the first, the last, the peak and the trough record are never
  dropped. The sampled index set of a series of 120 points has more than 60 elements
  (the 60 even indices and index 119), and \<open>slice(0, maxPoints)\<close> keeps the 60
  smallest: every series of 120 points comes back as 60 records read at indices below
  119, so that the record of the last day is dropped (with distinct date keys it is not
  in the output at all).
\<close>

theorem downsample_drops_last_day:
  assumes "length series = 120"
  shows "length (downsampleSeries series 60) = 60 \<and>
         (\<exists>idxs. downsampleSeries series 60 = map (\<lambda>i. sort_key date series ! i) idxs \<and>
                 (\<forall>i\<in>set idxs. i < 119)) \<and>
         (distinct (map date series) \<longrightarrow>
            last (sort_key date series) \<notin> set (downsampleSeries series 60))"
proof -
  let ?s = "sort_key date series"
  let ?idxs = "final_indices ?s 60"
  have len: "length ?s = 120"
    using assms by simp
  have out: "downsampleSeries series 60 = map (\<lambda>i. ?s ! i) ?idxs"
    using assms by (intro downsampleSeries_indices) simp
  have many: "60 < length (all_sampled ?s 60)"
    using len by (rule all_sampled_120)
  have below: "\<forall>i\<in>set ?idxs. i < 119"
    using truncation_drops_last [OF many] assms by auto
  have "length ?idxs = 60"
    using many by (simp add: final_indices_def Let_def)
  then have l60: "length (downsampleSeries series 60) = 60"
    by (simp add: out)
  have "last ?s \<notin> set (downsampleSeries series 60)" if d: "distinct (map date series)"
  proof
    assume "last ?s \<in> set (downsampleSeries series 60)"
    then obtain i where i: "i \<in> set ?idxs" "?s ! i = last ?s"
      by (auto simp: out)
    have ds: "distinct ?s"
      using d by (simp add: distinct_map)
    have "length ?s \<noteq> 0"
      unfolding len by simp
    then have "?s \<noteq> []"
      by (simp only: length_0_conv not_False_eq_True)
    then have "last ?s = ?s ! (length ?s - 1)"
      by (rule last_conv_nth)
    then have "last ?s = ?s ! 119"
      by (simp only: len) simp
    with i(2) have "?s ! i = ?s ! 119" by simp
    moreover have "i < 119" using below i(1) by simp
    ultimately show False
      using ds len by (simp add: nth_eq_iff_index_eq)
  qed
  with l60 out below show ?thesis
    by blast
qed

theorem downsample_drops_last_day_witness:
  "length four_months = 120 \<and> distinct (map date four_months) \<and>
   length (downsampleSeries four_months 60) = 60 \<and>
   last (sort_key date four_months) \<notin> set (downsampleSeries four_months 60)"
  using downsample_drops_last_day [OF length_four_months] length_four_months
    distinct_dates_120
  by (simp add: date_four_months)

end
